theory Spec2Isabelle
  imports Main "HOL-Library.AList" "HOL-Library.Sublist"
begin

section \<open>The clear-the-clutter script (exercises/clear_the_clutter/main.js)\<close>

text \<open>
  The script reads the directory \<^verbatim>\<open>path.join(__dirname, 'files')\<close> and, for every entry
  name returned by \<^verbatim>\<open>fs.readdirSync\<close>, moves the entry into a subdirectory named after
  the entry's extension. It calls four functions of Node's \<^verbatim>\<open>fs\<close> module
  (\<^verbatim>\<open>readdirSync\<close>, \<^verbatim>\<open>existsSync\<close>, \<^verbatim>\<open>mkdirSync\<close>, \<^verbatim>\<open>renameSync\<close>) and two of
  its \<^verbatim>\<open>path\<close> module (\<^verbatim>\<open>extname\<close>, \<^verbatim>\<open>join\<close>). The library functions are modelled
  first, with POSIX semantics, then the script itself.
\<close>

subsection \<open>\<^verbatim>\<open>path.extname\<close>\<close>

text \<open>
  Node's \<^verbatim>\<open>posix.extname\<close> scans the path from its last character to its first and
  keeps five variables: \<^verbatim>\<open>startDot\<close>, \<^verbatim>\<open>startPart\<close>, \<^verbatim>\<open>end\<close>, \<^verbatim>\<open>matchedSlash\<close> and
  \<^verbatim>\<open>preDotState\<close>, with \<open>-1\<close> for "not yet seen". The loop index \<^verbatim>\<open>i\<close> runs from
  \<open>length path - 1\<close> down to \<open>0\<close>; \<open>extname_loop path (Suc i)\<close> is the iteration at
  index \<open>i\<close>, and \<^verbatim>\<open>break\<close> returns the state at once. \<open>mark_end\<close> and \<open>track_dot\<close>
  are the two \<^verbatim>\<open>if\<close> statements of the loop body that follow the test for a separator.
\<close>

record ext_state =
  startDot :: int
  startPart :: int
  end_pos :: int
  matchedSlash :: bool
  preDotState :: int

definition init_ext_state :: ext_state where
  "init_ext_state = \<lparr>startDot = -1, startPart = 0, end_pos = -1, matchedSlash = True, preDotState = 0\<rparr>"

definition mark_end :: "nat \<Rightarrow> ext_state \<Rightarrow> ext_state" where
  "mark_end i s = (if end_pos s = -1 then s\<lparr>matchedSlash := False, end_pos := int i + 1\<rparr> else s)"

definition track_dot :: "char \<Rightarrow> nat \<Rightarrow> ext_state \<Rightarrow> ext_state" where
  "track_dot code i s =
     (if code = CHR ''.'' then
        (if startDot s = -1 then s\<lparr>startDot := int i\<rparr>
         else if preDotState s \<noteq> 1 then s\<lparr>preDotState := 1\<rparr>
         else s)
      else if startDot s \<noteq> -1 then s\<lparr>preDotState := -1\<rparr>
      else s)"

fun extname_loop :: "string \<Rightarrow> nat \<Rightarrow> ext_state \<Rightarrow> ext_state" where
  "extname_loop path 0 s = s"
| "extname_loop path (Suc i) s =
     (let code = path ! i in
      if code = CHR ''/'' then
        (if \<not> matchedSlash s then s\<lparr>startPart := int i + 1\<rparr>
         else extname_loop path i s)
      else extname_loop path i (track_dot code i (mark_end i s)))"

definition slice :: "string \<Rightarrow> int \<Rightarrow> int \<Rightarrow> string" where
  "slice str a b = take (nat b - nat a) (drop (nat a) str)"

definition extname :: "string \<Rightarrow> string" where
  "extname path =
     (let s = extname_loop path (length path) init_ext_state in
      if startDot s = -1 \<or> end_pos s = -1 \<or> preDotState s = 0 \<or>
         (preDotState s = 1 \<and> startDot s = end_pos s - 1 \<and> startDot s = startPart s + 1)
      then []
      else slice path (startDot s) (end_pos s))"

text \<open>The script's \<^verbatim>\<open>let extName = path.extname(file).slice(1)\<close>.\<close>

definition extName :: "string \<Rightarrow> string" where
  "extName file = drop 1 (extname file)"

text \<open>
  The words of the specification, for comparison: "the substring after the last dot of
  the name".
\<close>

definition after_last_dot :: "string \<Rightarrow> string" where
  "after_last_dot name = rev (takeWhile (\<lambda>c. c \<noteq> CHR ''.'') (rev name))"

subsection \<open>\<^verbatim>\<open>path.join\<close>\<close>

text \<open>
  \<^verbatim>\<open>path.join\<close> drops zero-length arguments, joins the others with \<^verbatim>\<open>/\<close> and normalises
  the result; with nothing left it returns \<^verbatim>\<open>.\<close>. Normalisation works on the segments
  between separators: empty segments and \<^verbatim>\<open>.\<close> vanish, \<^verbatim>\<open>..\<close> removes the segment before
  it (or stays, in a relative path that has nothing left to remove).
\<close>

fun split_on :: "char \<Rightarrow> string \<Rightarrow> string list" where
  "split_on sep [] = [[]]"
| "split_on sep (c # cs) =
     (if c = sep then [] # split_on sep cs
      else (case split_on sep cs of
              [] \<Rightarrow> [[c]]
            | seg # segs \<Rightarrow> (c # seg) # segs))"

fun join_slash :: "string list \<Rightarrow> string" where
  "join_slash [] = []"
| "join_slash [seg] = seg"
| "join_slash (seg # segs) = seg @ CHR ''/'' # join_slash segs"

fun normalize_segments :: "bool \<Rightarrow> string list \<Rightarrow> string list \<Rightarrow> string list" where
  "normalize_segments allowAboveRoot res [] = res"
| "normalize_segments allowAboveRoot res (seg # segs) =
     (if seg = [] \<or> seg = ''.'' then normalize_segments allowAboveRoot res segs
      else if seg = ''..'' then
        (if res \<noteq> [] \<and> last res \<noteq> ''..'' then normalize_segments allowAboveRoot (butlast res) segs
         else if allowAboveRoot then normalize_segments allowAboveRoot (res @ [''..'']) segs
         else normalize_segments allowAboveRoot res segs)
      else normalize_segments allowAboveRoot (res @ [seg]) segs)"

definition normalize :: "string \<Rightarrow> string" where
  "normalize path =
     (if path = [] then ''.''
      else
        (let isAbsolute = (hd path = CHR ''/'');
             trailingSeparator = (last path = CHR ''/'');
             p = join_slash (normalize_segments (\<not> isAbsolute) [] (split_on CHR ''/'' path))
         in if p = [] then (if isAbsolute then ''/'' else if trailingSeparator then ''./'' else ''.'')
            else (let p' = (if trailingSeparator then p @ ''/'' else p)
                  in if isAbsolute then CHR ''/'' # p' else p')))"

definition path_join :: "string list \<Rightarrow> string" where
  "path_join args =
     (let parts = filter (\<lambda>arg. arg \<noteq> []) args
      in if parts = [] then ''.'' else normalize (join_slash parts))"

subsection \<open>The file system below the scanned directory\<close>

text \<open>
  The error codes of the system calls. \<open>Unmodelled\<close> is not an error of Node: it marks a
  call on a path outside the scanned directory, about which this model says nothing
  (the script makes no such call, as is proved for claim C10 below).
\<close>

datatype errno = ENOENT | ENOTDIR | EISDIR | ENOTEMPTY | EACCES | EINVAL | EEXIST | EBUSY | Unmodelled


text \<open>
  A node is a regular file with its content, or a directory with two permission bits
  of the process running the script (read: list the entries; write: add, remove and
  rename entries) and its entries in \<^verbatim>\<open>readdir\<close> order. Search permission is taken as
  granted; symbolic links, hard links and special files are left out.
\<close>

datatype node = File string | Dir bool bool "(string \<times> node) list"

fun is_dir :: "node \<Rightarrow> bool" where
  "is_dir (Dir r w es) = True"
| "is_dir (File c) = False"

fun writable :: "node \<Rightarrow> bool" where
  "writable (Dir r w es) = w"
| "writable (File c) = True"

fun entries :: "node \<Rightarrow> (string \<times> node) list" where
  "entries (Dir r w es) = es"
| "entries (File c) = []"

text \<open>
  The world of the script: the components of \<^verbatim>\<open>__dirname\<close>, the absolute directory the
  script file lies in, and what there is at \<^verbatim>\<open>__dirname/files\<close>: nothing, a regular file,
  or the directory to organize.
\<close>

record world =
  script_dir :: "string list"
  scanned :: "node option"

definition abs_path :: "string list \<Rightarrow> string" where
  "abs_path cs = (if cs = [] then ''/'' else concat (map (\<lambda>c. CHR ''/'' # c) cs))"

definition dirname :: "world \<Rightarrow> string" where
  "dirname w = abs_path (script_dir w)"

text \<open>
  A path string of the script addresses a place below the scanned directory: the
  directory itself (no components), or the components that follow its path.
\<close>

definition resolve :: "world \<Rightarrow> string \<Rightarrow> string list option" where
  "resolve w p =
     (let base = path_join [dirname w, ''files'']
      in if p = base then Some []
         else if take (length base + 1) p = base @ ''/''
           then Some (split_on CHR ''/'' (drop (length base + 1) p))
         else None)"

text \<open>Path resolution from a node, and removing and placing a node at a path.\<close>

fun walk :: "node \<Rightarrow> string list \<Rightarrow> errno + node" where
  "walk n [] = Inr n"
| "walk (File c) (x # xs) = Inl ENOTDIR"
| "walk (Dir r w es) (x # xs) =
     (case map_of es x of None \<Rightarrow> Inl ENOENT | Some n \<Rightarrow> walk n xs)"

fun unlink_at :: "node \<Rightarrow> string list \<Rightarrow> node" where
  "unlink_at n [] = n"
| "unlink_at (File c) (x # xs) = File c"
| "unlink_at (Dir r w es) [x] = Dir r w (AList.delete x es)"
| "unlink_at (Dir r w es) (x # y # ys) =
     (case map_of es x of
        None \<Rightarrow> Dir r w es
      | Some n \<Rightarrow> Dir r w (AList.update x (unlink_at n (y # ys)) es))"

fun place_at :: "node \<Rightarrow> string list \<Rightarrow> node \<Rightarrow> node" where
  "place_at n [] new = new"
| "place_at (File c) (x # xs) new = File c"
| "place_at (Dir r w es) [x] new = Dir r w (AList.update x new es)"
| "place_at (Dir r w es) (x # y # ys) new =
     (case map_of es x of
        None \<Rightarrow> Dir r w es
      | Some n \<Rightarrow> Dir r w (AList.update x (place_at n (y # ys) new) es))"

text \<open>
  \<^verbatim>\<open>rename(2)\<close>, as \<^verbatim>\<open>fs.renameSync\<close> calls it. The source must exist and the parent of the
  destination must be a directory. Renaming a path onto itself does nothing and
  succeeds. Otherwise both parents must be writable, a directory that changes its parent
  must be writable itself, and a directory cannot go below itself. An existing
  destination is replaced when it is a regular file and so is the source, or an empty
  directory and the source is a directory; the other combinations fail. The move is
  atomic: on an error nothing has changed.
\<close>

definition rename_node :: "node \<Rightarrow> string list \<Rightarrow> string list \<Rightarrow> errno + node" where
  "rename_node t src dst =
     (if src = [] \<or> dst = [] then Inl EBUSY
      else
        (case walk t src of
           Inl e \<Rightarrow> Inl e
         | Inr sn \<Rightarrow>
            (case walk t (butlast dst) of
               Inl e \<Rightarrow> Inl e
             | Inr (File c) \<Rightarrow> Inl ENOTDIR
             | Inr (Dir dr dw des) \<Rightarrow>
                if src = dst then Inr t
                else if \<not> (dw \<and> (case walk t (butlast src) of Inr sp \<Rightarrow> writable sp | Inl e \<Rightarrow> False))
                  then Inl EACCES
                else if is_dir sn \<and> butlast src \<noteq> butlast dst \<and> \<not> writable sn then Inl EACCES
                else if is_dir sn \<and> prefix src dst then Inl EINVAL
                else
                  (case map_of des (last dst) of
                     None \<Rightarrow> Inr (place_at (unlink_at t src) dst sn)
                   | Some dn \<Rightarrow>
                      if is_dir sn \<and> \<not> is_dir dn then Inl ENOTDIR
                      else if is_dir dn \<and> \<not> is_dir sn then Inl EISDIR
                      else if is_dir dn \<and> entries dn \<noteq> [] then Inl ENOTEMPTY
                      else Inr (place_at (unlink_at t src) dst sn)))))"

text \<open>
  \<^verbatim>\<open>fs.mkdirSync(path, { recursive: true })\<close>: an existing directory is accepted as it is,
  missing directories are created (readable and writable) along the path, which needs
  write permission on the directory they are created in.
\<close>

fun mkdir_p :: "node \<Rightarrow> string list \<Rightarrow> errno + node" where
  "mkdir_p (File c) [] = Inl EEXIST"
| "mkdir_p (Dir r w es) [] = Inr (Dir r w es)"
| "mkdir_p (File c) (x # xs) = Inl ENOTDIR"
| "mkdir_p (Dir r w es) (x # xs) =
     (case map_of es x of
        Some n \<Rightarrow>
          (case mkdir_p n xs of
             Inl e \<Rightarrow> Inl e
           | Inr n' \<Rightarrow> Inr (Dir r w (AList.update x n' es)))
      | None \<Rightarrow>
          if \<not> w then Inl EACCES
          else (case mkdir_p (Dir True True []) xs of
                  Inl e \<Rightarrow> Inl e
                | Inr n' \<Rightarrow> Inr (Dir r w (es @ [(x, n')]))))"

text \<open>
  The four calls of the script. They take the path strings the script builds. A failed
  call returns the error it throws; \<^verbatim>\<open>existsSync\<close> never throws.
\<close>

definition readdirSync :: "world \<Rightarrow> string \<Rightarrow> errno + string list" where
  "readdirSync w p =
     (case resolve w p of
        None \<Rightarrow> Inl Unmodelled
      | Some cs \<Rightarrow>
         (case scanned w of
            None \<Rightarrow> Inl ENOENT
          | Some t \<Rightarrow>
             (case walk t cs of
                Inl e \<Rightarrow> Inl e
              | Inr (File c) \<Rightarrow> Inl ENOTDIR
              | Inr (Dir r wr es) \<Rightarrow> if r then Inr (map fst es) else Inl EACCES)))"

definition existsSync :: "world \<Rightarrow> string \<Rightarrow> bool" where
  "existsSync w p =
     (case resolve w p of
        None \<Rightarrow> False
      | Some cs \<Rightarrow>
         (case scanned w of
            None \<Rightarrow> False
          | Some t \<Rightarrow> (case walk t cs of Inl e \<Rightarrow> False | Inr n \<Rightarrow> True)))"

definition mkdirSync :: "world \<Rightarrow> string \<Rightarrow> errno + world" where
  "mkdirSync w p =
     (case resolve w p of
        None \<Rightarrow> Inl Unmodelled
      | Some cs \<Rightarrow>
         (case mkdir_p (case scanned w of None \<Rightarrow> Dir True True [] | Some t \<Rightarrow> t) cs of
            Inl e \<Rightarrow> Inl e
          | Inr t' \<Rightarrow> Inr (w\<lparr>scanned := Some t'\<rparr>)))"

definition renameSync :: "world \<Rightarrow> string \<Rightarrow> string \<Rightarrow> errno + world" where
  "renameSync w oldPath newPath =
     (case (resolve w oldPath, resolve w newPath) of
        (Some src, Some dst) \<Rightarrow>
          (case scanned w of
             None \<Rightarrow> Inl ENOENT
           | Some t \<Rightarrow>
              (case rename_node t src dst of
                 Inl e \<Rightarrow> Inl e
               | Inr t' \<Rightarrow> Inr (w\<lparr>scanned := Some t'\<rparr>)))
      | _ \<Rightarrow> Inl Unmodelled)"

subsection \<open>The script\<close>

text \<open>
  The console: \<^verbatim>\<open>console.log(text)\<close>, \<^verbatim>\<open>console.error(err)\<close> and
  \<^verbatim>\<open>console.error(text, err)\<close>, in the order of the calls. A piece of code completes
  normally or by throwing; in both cases the file system and the console are as the code
  left them.
\<close>

datatype line = Log string | Error errno | ErrorMsg string errno

datatype 'a completion = Normal 'a | Throw errno 'a


text \<open>
  \<^verbatim>\<open>files.forEach(callback)\<close> calls the callback on the names in order; an exception of
  the callback ends the loop and leaves \<open>forEach\<close>.
\<close>

fun forEach :: "string list \<Rightarrow> (string \<Rightarrow> 's \<Rightarrow> 's completion) \<Rightarrow> 's \<Rightarrow> 's completion" where
  "forEach [] callback s = Normal s"
| "forEach (file # rest) callback s =
     (case callback file s of
        Throw err s' \<Rightarrow> Throw err s'
      | Normal s' \<Rightarrow> forEach rest callback s')"

text \<open>
  The callback \<^verbatim>\<open>(file, index) => { ... }\<close> of the script (lines 8 to 27). In the
  \<^verbatim>\<open>else\<close> branch \<^verbatim>\<open>mkdirSync\<close> stands outside the inner \<^verbatim>\<open>try\<close>, so what it throws
  leaves the callback.
\<close>

definition organize_entry :: "string \<Rightarrow> string \<Rightarrow> world \<times> line list \<Rightarrow> (world \<times> line list) completion" where
  "organize_entry fullPath file = (\<lambda>(w, out).
     (let ext = extName file in
      if existsSync w (path_join [fullPath, ext]) then
        (let out1 = out @ [Log ''folder exists''] in
         case renameSync w (path_join [fullPath, file]) (path_join [path_join [fullPath, ext], file]) of
           Inr w' \<Rightarrow> Normal (w', out1 @ [Log ''File moved successfully!''])
         | Inl err \<Rightarrow> Normal (w, out1 @ [Error err]))
      else
        (case mkdirSync w (path_join [fullPath, ext]) of
           Inl err \<Rightarrow> Throw err (w, out)
         | Inr w1 \<Rightarrow>
            (case renameSync w1 (path_join [fullPath, file]) (path_join [path_join [fullPath, ext], file]) of
               Inr w' \<Rightarrow> Normal (w', out @ [Log ''File moved successfully!''])
             | Inl err \<Rightarrow> Normal (w1, out @ [Error err])))))"

text \<open>
  The script as a whole (lines 4 to 31): everything runs inside the outer \<^verbatim>\<open>try\<close>,
  whose \<^verbatim>\<open>catch\<close> logs the error and lets the script end normally.
\<close>

definition main :: "world \<Rightarrow> (world \<times> line list) completion" where
  "main w =
     (let fullPath = path_join [dirname w, ''files''] in
      case readdirSync w fullPath of
        Inl err \<Rightarrow> Normal (w, [ErrorMsg ''Error reading directory:'' err])
      | Inr files \<Rightarrow>
         (case forEach files (organize_entry fullPath) (w, []) of
            Normal s \<Rightarrow> Normal s
          | Throw err (w', out) \<Rightarrow> Normal (w', out @ [ErrorMsg ''Error reading directory:'' err])))"


subsection \<open>Well-formed worlds and the script seen from inside the scanned directory\<close>

text \<open>
  A name returned by \<^verbatim>\<open>readdirSync\<close> is a single path component: it is not empty, has no
  \<^verbatim>\<open>/\<close> in it and is neither \<^verbatim>\<open>.\<close> nor \<^verbatim>\<open>..\<close>. The same holds for the components of
  \<^verbatim>\<open>__dirname\<close>.

  \<open>try_move\<close> and \<open>step_entries\<close> restate \<open>rename_node\<close> and \<open>organize_entry\<close> on the
  entry list of the scanned directory alone; lemma \<open>organize_entry_step\<close> below proves
  that they compute what the script computes through path strings.
\<close>

definition valid_name :: "string \<Rightarrow> bool" where
  "valid_name x = (x \<noteq> [] \<and> CHR ''/'' \<notin> set x \<and> x \<noteq> ''.'' \<and> x \<noteq> ''..'')"

definition try_move ::
  "bool \<Rightarrow> (string \<times> node) list \<Rightarrow> string \<Rightarrow> string \<Rightarrow> errno + (string \<times> node) list" where
  "try_move wr es f e =
     (case map_of es f of
        None \<Rightarrow> Inl ENOENT
      | Some sn \<Rightarrow>
         (case map_of es e of
            None \<Rightarrow> Inl ENOENT
          | Some (File c) \<Rightarrow> Inl ENOTDIR
          | Some (Dir dr dw des) \<Rightarrow>
             if \<not> (dw \<and> wr) then Inl EACCES
             else if is_dir sn \<and> \<not> writable sn then Inl EACCES
             else
               (case map_of des f of
                  None \<Rightarrow> Inr (AList.update e (Dir dr dw (AList.update f sn des)) (AList.delete f es))
                | Some dn \<Rightarrow>
                   if is_dir sn \<and> \<not> is_dir dn then Inl ENOTDIR
                   else if is_dir dn \<and> \<not> is_dir sn then Inl EISDIR
                   else if is_dir dn \<and> entries dn \<noteq> [] then Inl ENOTEMPTY
                   else Inr (AList.update e (Dir dr dw (AList.update f sn des)) (AList.delete f es)))))"

definition step_entries ::
  "bool \<Rightarrow> string \<Rightarrow> (string \<times> node) list \<times> line list \<Rightarrow>
   ((string \<times> node) list \<times> line list) completion" where
  "step_entries wr f = (\<lambda>(es, out).
     (let e = extName f in
      if e = [] then
        Normal (es, out @ [Log ''folder exists'',
          (if map_of es f = None then Error ENOENT else Log ''File moved successfully!'')])
      else if map_of es e \<noteq> None then
        (case try_move wr es f e of
           Inr es' \<Rightarrow> Normal (es', out @ [Log ''folder exists'', Log ''File moved successfully!''])
         | Inl err \<Rightarrow> Normal (es, out @ [Log ''folder exists'', Error err]))
      else if \<not> wr then Throw EACCES (es, out)
      else
        (case try_move wr (es @ [(e, Dir True True [])]) f e of
           Inr es' \<Rightarrow> Normal (es', out @ [Log ''File moved successfully!''])
         | Inl err \<Rightarrow> Normal (es @ [(e, Dir True True [])], out @ [Error err]))))"

definition with_entries :: "world \<Rightarrow> bool \<Rightarrow> bool \<Rightarrow> (string \<times> node) list \<times> line list \<Rightarrow> world \<times> line list" where
  "with_entries w r wr = (\<lambda>(es, out). (w\<lparr>scanned := Some (Dir r wr es)\<rparr>, out))"

definition slash_path :: "string list \<Rightarrow> string" where
  "slash_path cs = concat (map (\<lambda>c. CHR ''/'' # c) cs)"


text \<open>
  A world is well formed when the components of \<^verbatim>\<open>__dirname\<close> and the names in the
  scanned directory are valid names.
\<close>

definition wf_world :: "world \<Rightarrow> bool" where
  "wf_world w =
     (list_all valid_name (script_dir w) \<and>
      (case scanned w of
         None \<Rightarrow> True
       | Some t \<Rightarrow> list_all valid_name (map fst (entries t))))"

text \<open>The state in which a run of \<open>forEach\<close> ended, normally or by a throw.\<close>

fun state_of :: "'a completion \<Rightarrow> 'a" where
  "state_of (Normal s) = s"
| "state_of (Throw err s) = s"

definition run_entries :: "bool \<Rightarrow> (string \<times> node) list \<Rightarrow> ((string \<times> node) list \<times> line list) completion" where
  "run_entries wr es = forEach (map fst es) (step_entries wr) (es, [])"

text \<open>The entry list of the scanned directory in the world a run of the script leaves behind.\<close>

definition final_entries :: "world \<Rightarrow> (string \<times> node) list" where
  "final_entries w = (case scanned (fst (state_of (main w))) of None \<Rightarrow> [] | Some t \<Rightarrow> entries t)"

definition console :: "world \<Rightarrow> line list" where
  "console w = snd (state_of (main w))"

text \<open>The entry list after the callback has handled one name.\<close>

definition next_entries :: "bool \<Rightarrow> string \<Rightarrow> (string \<times> node) list \<Rightarrow> (string \<times> node) list" where
  "next_entries wr g es = fst (state_of (step_entries wr g (es, [])))"

text \<open>
  Two nodes are of the same kind when both are regular files with the same content, or
  both are directories with the same permissions (their entries may differ).
\<close>

fun same_kind :: "node \<Rightarrow> node \<Rightarrow> bool" where
  "same_kind (File c) (File c') = (c = c')"
| "same_kind (Dir r w es) (Dir r' w' es') = (r = r' \<and> w = w')"
| "same_kind (File c) (Dir r' w' es') = False"
| "same_kind (Dir r w es) (File c') = False"

text \<open>
  Where an entry named \<open>f\<close> is after a run: at its original location, directly in the
  scanned directory, or else at its destination location, in the directory named after
  its extension.
\<close>

definition located :: "string \<Rightarrow> (string \<times> node) list \<Rightarrow> node option" where
  "located f es =
     (case map_of es f of
        Some n \<Rightarrow> Some n
      | None \<Rightarrow>
         (if extName f = [] then None
          else (case map_of es (extName f) of
                  None \<Rightarrow> None
                | Some d \<Rightarrow> map_of (entries d) f)))"

text \<open>
  When \<open>renameSync\<close> accepts the move of the node \<open>sn\<close>, named \<open>f\<close>, into a directory:
  the node is not a directory without write permission, and the directory it goes to is
  writable and holds under the name \<open>f\<close> nothing, or a node that \<open>rename\<close> may replace
  (a regular file for a regular file, an empty directory for a directory).
\<close>

definition movable :: "node \<Rightarrow> bool" where
  "movable sn = (\<not> (is_dir sn \<and> \<not> writable sn))"

fun can_receive :: "node \<Rightarrow> string \<Rightarrow> node \<Rightarrow> bool" where
  "can_receive sn f (File c) = False"
| "can_receive sn f (Dir dr dw des) =
     (dw \<and> (case map_of des f of
              None \<Rightarrow> True
            | Some dn \<Rightarrow> is_dir sn = is_dir dn \<and> (is_dir dn \<longrightarrow> entries dn = [])))"

text \<open>The example worlds: \<^verbatim>\<open>__dirname\<close> is \<^verbatim>\<open>/exercises/clear_the_clutter\<close>.\<close>

definition in_files :: "bool \<Rightarrow> (string \<times> node) list \<Rightarrow> world" where
  "in_files wr es =
     \<lparr>script_dir = [''exercises'', ''clear_the_clutter''], scanned = Some (Dir True wr es)\<rparr>"

subsection \<open>The calls the script makes\<close>

text \<open>
  To say which paths the script hands to the file system, the script is written out once
  more over a file system that keeps a journal: every call appends itself, with its path
  arguments, to a list, whether it succeeds or fails, and otherwise does what the call
  above does. \<open>organize_entry_traced\<close> and \<open>main_traced\<close> are the callback and the script
  over these calls, statement by statement.
\<close>

datatype fs_call =
  ReaddirSync string | ExistsSync string | MkdirSync string | RenameSync string string

type_synonym traced = "world \<times> fs_call list"

definition readdirSync_traced :: "traced \<Rightarrow> string \<Rightarrow> (errno + string list) \<times> traced" where
  "readdirSync_traced s p = (readdirSync (fst s) p, (fst s, snd s @ [ReaddirSync p]))"

definition existsSync_traced :: "traced \<Rightarrow> string \<Rightarrow> bool \<times> traced" where
  "existsSync_traced s p = (existsSync (fst s) p, (fst s, snd s @ [ExistsSync p]))"

definition mkdirSync_traced :: "traced \<Rightarrow> string \<Rightarrow> errno option \<times> traced" where
  "mkdirSync_traced s p =
     (case mkdirSync (fst s) p of
        Inl err \<Rightarrow> (Some err, (fst s, snd s @ [MkdirSync p]))
      | Inr w' \<Rightarrow> (None, (w', snd s @ [MkdirSync p])))"

definition renameSync_traced :: "traced \<Rightarrow> string \<Rightarrow> string \<Rightarrow> errno option \<times> traced" where
  "renameSync_traced s oldPath newPath =
     (case renameSync (fst s) oldPath newPath of
        Inl err \<Rightarrow> (Some err, (fst s, snd s @ [RenameSync oldPath newPath]))
      | Inr w' \<Rightarrow> (None, (w', snd s @ [RenameSync oldPath newPath])))"

definition organize_entry_traced ::
  "string \<Rightarrow> string \<Rightarrow> traced \<times> line list \<Rightarrow> (traced \<times> line list) completion" where
  "organize_entry_traced fullPath file = (\<lambda>(s, out).
     (let ext = extName file in
      case existsSync_traced s (path_join [fullPath, ext]) of
        (found, s0) \<Rightarrow>
          if found then
            (let out1 = out @ [Log ''folder exists''] in
             case renameSync_traced s0 (path_join [fullPath, file])
                    (path_join [path_join [fullPath, ext], file]) of
               (None, s') \<Rightarrow> Normal (s', out1 @ [Log ''File moved successfully!''])
             | (Some err, s') \<Rightarrow> Normal (s', out1 @ [Error err]))
          else
            (case mkdirSync_traced s0 (path_join [fullPath, ext]) of
               (Some err, s1) \<Rightarrow> Throw err (s1, out)
             | (None, s1) \<Rightarrow>
                (case renameSync_traced s1 (path_join [fullPath, file])
                        (path_join [path_join [fullPath, ext], file]) of
                   (None, s') \<Rightarrow> Normal (s', out @ [Log ''File moved successfully!''])
                 | (Some err, s') \<Rightarrow> Normal (s', out @ [Error err])))))"

definition main_traced :: "traced \<Rightarrow> (traced \<times> line list) completion" where
  "main_traced s =
     (let fullPath = path_join [dirname (fst s), ''files''] in
      case readdirSync_traced s fullPath of
        (Inl err, s0) \<Rightarrow> Normal (s0, [ErrorMsg ''Error reading directory:'' err])
      | (Inr files, s0) \<Rightarrow>
         (case forEach files (organize_entry_traced fullPath) (s0, []) of
            Normal x \<Rightarrow> Normal x
          | Throw err (s', out) \<Rightarrow> Normal (s', out @ [ErrorMsg ''Error reading directory:'' err])))"

text \<open>Forgetting the journal, and reading it off a completed run.\<close>

definition untraced :: "traced \<times> line list \<Rightarrow> world \<times> line list" where
  "untraced x = (fst (fst x), snd x)"

definition calls_of :: "(traced \<times> line list) completion \<Rightarrow> fs_call list" where
  "calls_of c = snd (fst (state_of c))"

text \<open>
  A call stays inside the scanned directory when each of its paths resolves to valid
  components below it: the directory itself for \<^verbatim>\<open>readdirSync\<close>; the directory or an entry
  of it for \<^verbatim>\<open>existsSync\<close>; an entry of it, one level deep, for \<^verbatim>\<open>mkdirSync\<close>; and for
  \<^verbatim>\<open>renameSync\<close> an entry of it as source and, as destination, the same entry or the
  entry of that name in the directory named after its extension.
\<close>

fun call_inside :: "world \<Rightarrow> fs_call \<Rightarrow> bool" where
  "call_inside w (ReaddirSync p) = (resolve w p = Some [])"
| "call_inside w (ExistsSync p) =
     (case resolve w p of None \<Rightarrow> False | Some cs \<Rightarrow> list_all valid_name cs \<and> length cs \<le> 1)"
| "call_inside w (MkdirSync p) =
     (case resolve w p of None \<Rightarrow> False | Some cs \<Rightarrow> list_all valid_name cs \<and> length cs = 1)"
| "call_inside w (RenameSync p q) =
     (case resolve w p of
        None \<Rightarrow> False
      | Some cs \<Rightarrow>
         list_all valid_name cs \<and> length cs = 1 \<and>
         (case resolve w q of
            None \<Rightarrow> False
          | Some ds \<Rightarrow> list_all valid_name ds \<and> (ds = cs \<or> ds = extName (hd cs) # cs)))"

section \<open>The extension of an entry name\<close>

lemma extname_loop_prefix:
  "n \<le> length xs \<Longrightarrow> extname_loop (xs @ ys) n s = extname_loop xs n s"
  by (induction n arbitrary: s) (simp_all add: nth_append Let_def)

lemma mark_end_startDot [simp]: "startDot (mark_end i s) = startDot s"
  by (simp add: mark_end_def)

lemma mark_end_twice: "mark_end j (mark_end i s) = mark_end i s"
  by (simp add: mark_end_def)

lemma mark_end_set: "end_pos s \<noteq> -1 \<Longrightarrow> mark_end i s = s"
  by (simp add: mark_end_def)

lemma track_dot_plain:
  "c \<noteq> CHR ''.'' \<Longrightarrow> startDot s = -1 \<Longrightarrow> track_dot c i s = s"
  by (simp add: track_dot_def)

lemma track_dot_after:
  "startDot s \<noteq> -1 \<Longrightarrow>
   track_dot c i s = s\<lparr>preDotState := (if c = CHR ''.'' then 1 else -1)\<rparr>"
  by (simp add: track_dot_def)

lemma extname_loop_plain:
  assumes "CHR ''.'' \<notin> set ys" "CHR ''/'' \<notin> set ys" "startDot s = -1"
  shows "extname_loop (xs @ ys) (length xs + length ys) s =
         extname_loop (xs @ ys) (length xs)
           (if ys = [] then s else mark_end (length xs + length ys - 1) s)"
  using assms
proof (induction ys arbitrary: s rule: rev_induct)
  case Nil
  then show ?case by simp
next
  case (snoc y ys)
  have step: "extname_loop (xs @ ys @ [y]) (Suc (length xs + length ys)) s =
        extname_loop (xs @ ys @ [y]) (length xs + length ys) (mark_end (length xs + length ys) s)"
  proof -
    from snoc.prems have "y \<noteq> CHR ''/''" "y \<noteq> CHR ''.''" by auto
    with snoc.prems show ?thesis by (simp add: nth_append track_dot_plain)
  qed
  have "extname_loop ((xs @ ys) @ [y]) (length xs + length ys) (mark_end (length xs + length ys) s)
      = extname_loop (xs @ ys) (length xs + length ys) (mark_end (length xs + length ys) s)"
    by (rule extname_loop_prefix) simp
  also have "\<dots> = extname_loop (xs @ ys) (length xs)
       (if ys = [] then mark_end (length xs + length ys) s
        else mark_end (length xs + length ys - 1) (mark_end (length xs + length ys) s))"
    using snoc.prems by (intro snoc.IH) simp_all
  also have "\<dots> = extname_loop (xs @ ys) (length xs) (mark_end (length xs + length ys) s)"
    by (simp add: mark_end_twice)
  also have "\<dots> = extname_loop xs (length xs) (mark_end (length xs + length ys) s)"
    by (rule extname_loop_prefix) simp
  also have "\<dots> = extname_loop (xs @ ys @ [y]) (length xs) (mark_end (length xs + length ys) s)"
    by (rule extname_loop_prefix [symmetric]) simp
  finally show ?case using step by simp
qed

lemma extname_loop_before_dot:
  assumes "CHR ''/'' \<notin> set xs" "startDot s \<noteq> -1" "end_pos s \<noteq> -1"
  shows "extname_loop xs (length xs) s =
         (if xs = [] then s else s\<lparr>preDotState := (if hd xs = CHR ''.'' then 1 else -1)\<rparr>)"
  using assms
proof (induction xs arbitrary: s rule: rev_induct)
  case Nil
  then show ?case by simp
next
  case (snoc x xs)
  let ?s' = "s\<lparr>preDotState := (if x = CHR ''.'' then 1 else -1)\<rparr>"
  have "extname_loop (xs @ [x]) (Suc (length xs)) s = extname_loop (xs @ [x]) (length xs) ?s'"
  proof -
    from snoc.prems have "x \<noteq> CHR ''/''" by auto
    with snoc.prems show ?thesis by (simp add: mark_end_set track_dot_after)
  qed
  also have "\<dots> = extname_loop xs (length xs) ?s'"
    by (rule extname_loop_prefix) simp
  also have "\<dots> = (if xs = [] then ?s' else ?s'\<lparr>preDotState := (if hd xs = CHR ''.'' then 1 else -1)\<rparr>)"
    using snoc.prems by (intro snoc.IH) simp_all
  finally show ?case by (cases xs) simp_all
qed

lemma extname_loop_last_dot:
  assumes "CHR ''/'' \<notin> set pre" "CHR ''/'' \<notin> set suf" "CHR ''.'' \<notin> set suf"
  shows "extname_loop (pre @ CHR ''.'' # suf) (length (pre @ CHR ''.'' # suf)) init_ext_state =
         \<lparr>startDot = int (length pre), startPart = 0,
          end_pos = int (length pre) + 1 + int (length suf), matchedSlash = False,
          preDotState = (if pre = [] then 0 else if hd pre = CHR ''.'' then 1 else -1)\<rparr>"
proof -
  let ?p = "pre @ CHR ''.'' # suf"
  let ?n = "length pre"
  let ?sA = "if suf = [] then init_ext_state else mark_end (length (pre @ [CHR ''.'']) + length suf - 1) init_ext_state"
  let ?sB = "\<lparr>startDot = int ?n, startPart = 0,
          end_pos = int ?n + 1 + int (length suf), matchedSlash = False, preDotState = 0\<rparr>"
  have sB: "track_dot CHR ''.'' ?n (mark_end ?n ?sA) = ?sB"
    by (cases "suf = []") (simp_all add: init_ext_state_def mark_end_def track_dot_def)
  have "extname_loop ((pre @ [CHR ''.'']) @ suf) (length (pre @ [CHR ''.'']) + length suf) init_ext_state
      = extname_loop ((pre @ [CHR ''.'']) @ suf) (length (pre @ [CHR ''.''])) ?sA"
    using assms by (intro extname_loop_plain) (simp_all add: init_ext_state_def)
  then have "extname_loop ?p (length ?p) init_ext_state = extname_loop ?p (Suc ?n) ?sA"
    by simp
  also have "\<dots> = extname_loop ?p ?n (track_dot CHR ''.'' ?n (mark_end ?n ?sA))"
    by (simp add: Let_def)
  also have "\<dots> = extname_loop ?p ?n ?sB"
    by (simp only: sB)
  also have "\<dots> = extname_loop pre ?n ?sB"
    by (rule extname_loop_prefix) simp
  also have "\<dots> = (if pre = [] then ?sB else ?sB\<lparr>preDotState := (if hd pre = CHR ''.'' then 1 else -1)\<rparr>)"
    using assms by (intro extname_loop_before_dot) simp_all
  finally show ?thesis by simp
qed

lemma extname_last_dot:
  assumes "CHR ''/'' \<notin> set pre" "CHR ''/'' \<notin> set suf" "CHR ''.'' \<notin> set suf"
  shows "extname (pre @ CHR ''.'' # suf) =
         (if pre = [] \<or> (pre = ''.'' \<and> suf = []) then [] else CHR ''.'' # suf)"
proof -
  have "pre \<noteq> [] \<Longrightarrow> (hd pre = CHR ''.'' \<and> length pre = 1) = (pre = ''.'')"
    by (cases pre) auto
  then show ?thesis
    unfolding extname_def extname_loop_last_dot [OF assms] Let_def
    by (auto simp: slice_def)
qed

lemma extname_no_dot:
  assumes "CHR ''/'' \<notin> set name" "CHR ''.'' \<notin> set name"
  shows "extname name = []"
proof -
  have "startDot init_ext_state = -1" by (simp add: init_ext_state_def)
  from extname_loop_plain [OF assms(2) assms(1) this, of "[]"]
  have "startDot (extname_loop name (length name) init_ext_state) = -1"
    by (simp add: init_ext_state_def)
  then show ?thesis by (simp add: extname_def)
qed

lemma extName_last_dot:
  assumes "CHR ''/'' \<notin> set pre" "CHR ''/'' \<notin> set suf" "CHR ''.'' \<notin> set suf"
  shows "extName (pre @ CHR ''.'' # suf) = (if pre = [] then [] else suf)"
  using extname_last_dot [OF assms] by (auto simp: extName_def)

lemma extName_no_dot:
  "CHR ''/'' \<notin> set name \<Longrightarrow> CHR ''.'' \<notin> set name \<Longrightarrow> extName name = []"
  by (simp add: extName_def extname_no_dot)

lemma last_dot_split:
  assumes "CHR ''.'' \<in> set name"
  obtains pre suf where "name = pre @ CHR ''.'' # suf" "CHR ''.'' \<notin> set suf"
  using split_list_last [OF assms] by blast

lemma after_last_dot_split:
  "CHR ''.'' \<notin> set suf \<Longrightarrow> after_last_dot (pre @ CHR ''.'' # suf) = suf"
proof -
  assume nd: "CHR ''.'' \<notin> set suf"
  have "takeWhile (\<lambda>c. c \<noteq> CHR ''.'') (rev (pre @ CHR ''.'' # suf)) =
        takeWhile (\<lambda>c. c \<noteq> CHR ''.'') (rev suf)"
    by (simp add: takeWhile_tail)
  also from nd have "\<dots> = rev suf"
    by (intro takeWhile_eq_all_conv [THEN iffD2]) auto
  finally show ?thesis by (simp only: after_last_dot_def rev_rev_ident)
qed


text \<open>
  Claim C9. For every entry name (a name returned by \<^verbatim>\<open>readdirSync\<close> contains no
  \<^verbatim>\<open>/\<close>), the category computed by the script is the substring after the last dot of the
  name, where a dot that is the first character of the name does not count: a name whose
  only dot is the leading one, such as \<^verbatim>\<open>.gitignore\<close>, has the empty category, like a
  name with no dot at all. So \<^verbatim>\<open>archive.tar.gz\<close> has category \<^verbatim>\<open>gz\<close>.
\<close>

theorem extName_is_last_segment:
  assumes "CHR ''/'' \<notin> set name"
  shows "extName name = (if CHR ''.'' \<in> set (drop 1 name) then after_last_dot name else [])"
proof (cases "CHR ''.'' \<in> set name")
  case False
  then have "CHR ''.'' \<notin> set (drop 1 name)" by (meson in_set_dropD)
  with False assms show ?thesis by (simp add: extName_no_dot)
next
  case True
  then obtain pre suf where sp: "name = pre @ CHR ''.'' # suf" "CHR ''.'' \<notin> set suf"
    by (rule last_dot_split)
  with assms have ns: "CHR ''/'' \<notin> set pre" "CHR ''/'' \<notin> set suf" by simp_all
  have "(CHR ''.'' \<in> set (drop 1 name)) = (pre \<noteq> [])"
    using sp by (cases pre) auto
  then show ?thesis
    using extName_last_dot [OF ns sp(2)] after_last_dot_split [OF sp(2), of pre] sp(1)
    by simp
qed


theorem extName_is_last_segment_witness:
  "CHR ''/'' \<notin> set ''archive.tar.gz'' \<and> extName ''archive.tar.gz'' = ''gz'' \<and>
   CHR ''/'' \<notin> set ''.gitignore'' \<and> extName ''.gitignore'' = [] \<and>
   CHR ''/'' \<notin> set ''README'' \<and> extName ''README'' = []"
  using extName_is_last_segment [of "''archive.tar.gz''"]
    extName_is_last_segment [of "''.gitignore''"]
    extName_is_last_segment [of "''README''"]
  by (simp add: after_last_dot_def)

section \<open>Paths and file-system calls of the script\<close>

lemma split_on_not_Nil [simp]: "split_on sep s \<noteq> []"
  by (induction s) (auto split: list.splits)

lemma split_on_no_sep: "sep \<notin> set s \<Longrightarrow> split_on sep s = [s]"
  by (induction s) auto

lemma split_on_append_sep:
  "split_on sep (a @ sep # b) = split_on sep a @ split_on sep b"
proof (induction a)
  case Nil
  show ?case by simp
next
  case (Cons c a)
  show ?case
  proof (cases "c = sep")
    case True
    with Cons show ?thesis by simp
  next
    case False
    obtain seg segs where sp: "split_on sep a = seg # segs"
      by (cases "split_on sep a") simp_all
    with False Cons show ?thesis by simp
  qed
qed

lemma slash_path_snoc: "slash_path (cs @ [c]) = slash_path cs @ CHR ''/'' # c"
  by (simp add: slash_path_def)

lemma split_slash_path:
  "list_all (\<lambda>c. CHR ''/'' \<notin> set c) cs \<Longrightarrow> split_on CHR ''/'' (slash_path cs) = [] # cs"
proof (induction cs rule: rev_induct)
  case Nil
  show ?case by (simp add: slash_path_def)
next
  case (snoc c cs)
  then show ?case
    by (simp add: slash_path_snoc split_on_append_sep split_on_no_sep)
qed

lemma normalize_segments_valid:
  "list_all valid_name segs \<Longrightarrow> normalize_segments allow res segs = res @ segs"
  by (induction segs arbitrary: res) (auto simp: valid_name_def)

lemma join_slash_slash_path:
  "cs \<noteq> [] \<Longrightarrow> CHR ''/'' # join_slash cs = slash_path cs"
  by (induction cs rule: join_slash.induct) (simp_all add: slash_path_def)

lemma join_slash_not_Nil:
  "cs \<noteq> [] \<Longrightarrow> list_all valid_name cs \<Longrightarrow> join_slash cs \<noteq> []"
  by (induction cs rule: join_slash.induct) (simp_all add: valid_name_def)

lemma slash_path_not_Nil: "cs \<noteq> [] \<Longrightarrow> slash_path cs \<noteq> []"
  by (cases cs) (simp_all add: slash_path_def)

lemma hd_slash_path: "cs \<noteq> [] \<Longrightarrow> hd (slash_path cs) = CHR ''/''"
  by (cases cs) (simp_all add: slash_path_def)

lemma last_slash_path:
  "cs \<noteq> [] \<Longrightarrow> list_all valid_name cs \<Longrightarrow> last (slash_path cs) \<noteq> CHR ''/''"
proof (induction cs rule: rev_induct)
  case Nil
  then show ?case by simp
next
  case (snoc c cs)
  then have "c \<noteq> []" "CHR ''/'' \<notin> set c" by (simp_all add: valid_name_def)
  then have "last c \<noteq> CHR ''/''" by (metis last_in_set)
  with \<open>c \<noteq> []\<close> show ?case by (simp add: slash_path_snoc)
qed

lemma valid_name_no_slash: "list_all valid_name cs \<Longrightarrow> list_all (\<lambda>c. CHR ''/'' \<notin> set c) cs"
  by (induction cs) (simp_all add: valid_name_def)

lemma normalize_slash_path:
  assumes "cs \<noteq> []" "list_all valid_name cs"
  shows "normalize (slash_path cs) = slash_path cs"
proof -
  have "normalize_segments False [] (split_on CHR ''/'' (slash_path cs)) = cs"
    using assms by (simp add: split_slash_path valid_name_no_slash normalize_segments_valid)
  then show ?thesis
    using assms
    by (simp add: normalize_def Let_def slash_path_not_Nil hd_slash_path last_slash_path
        join_slash_not_Nil join_slash_slash_path)
qed

lemma path_join_root: 
  assumes "valid_name x"
  shows "path_join [''/'', x] = slash_path [x]"
proof -
  from assms have x: "x \<noteq> []" "CHR ''/'' \<notin> set x" "last x \<noteq> CHR ''/''"
    by (auto simp: valid_name_def dest: last_in_set)
  have "split_on CHR ''/'' (''/'' @ CHR ''/'' # x) = [[], [], x]"
    using x by (simp add: split_on_no_sep)
  then have "normalize_segments False [] (split_on CHR ''/'' (''/'' @ CHR ''/'' # x)) = [x]"
    using assms by (simp add: valid_name_def)
  then show ?thesis
    using x by (simp add: path_join_def normalize_def Let_def slash_path_def)
qed

lemma path_join_slash_path:
  assumes "cs \<noteq> []" "list_all valid_name cs" "valid_name x"
  shows "path_join [slash_path cs, x] = slash_path (cs @ [x])"
proof -
  from assms have "x \<noteq> []" by (simp add: valid_name_def)
  then have "path_join [slash_path cs, x] = normalize (slash_path (cs @ [x]))"
    using assms by (simp add: path_join_def slash_path_not_Nil slash_path_snoc)
  also have "\<dots> = slash_path (cs @ [x])"
    using assms by (intro normalize_slash_path) simp_all
  finally show ?thesis .
qed

lemma path_join_empty:
  assumes "cs \<noteq> []" "list_all valid_name cs"
  shows "path_join [slash_path cs, []] = slash_path cs"
  using assms by (simp add: path_join_def slash_path_not_Nil normalize_slash_path)

lemma path_join_abs_path:
  assumes "list_all valid_name cs" "valid_name x"
  shows "path_join [abs_path cs, x] = slash_path (cs @ [x])"
  using assms by (cases "cs = []") (simp_all add: abs_path_def path_join_root path_join_slash_path
      slash_path_def [symmetric])


subsection \<open>Extensions of valid names\<close>

lemma extName_cases:
  assumes "CHR ''/'' \<notin> set f"
  shows "extName f = [] \<or>
         (\<exists>pre. pre \<noteq> [] \<and> f = pre @ CHR ''.'' # extName f \<and> CHR ''.'' \<notin> set (extName f))"
proof (cases "CHR ''.'' \<in> set f")
  case False
  with assms show ?thesis by (simp add: extName_no_dot)
next
  case True
  then obtain pre suf where sp: "f = pre @ CHR ''.'' # suf" "CHR ''.'' \<notin> set suf"
    by (rule last_dot_split)
  with assms have "CHR ''/'' \<notin> set pre" "CHR ''/'' \<notin> set suf" by simp_all
  from extName_last_dot [OF this sp(2)] sp show ?thesis by auto
qed

lemma extName_no_slash: "CHR ''/'' \<notin> set f \<Longrightarrow> CHR ''/'' \<notin> set (extName f)"
  using extName_cases [of f] by (metis Un_iff list.set_intros(2) set_append empty_iff empty_set)

lemma extName_no_dot_in: "CHR ''/'' \<notin> set f \<Longrightarrow> CHR ''.'' \<notin> set (extName f)"
  using extName_cases [of f] by auto

lemma extName_neq: "CHR ''/'' \<notin> set f \<Longrightarrow> extName f \<noteq> [] \<Longrightarrow> extName f \<noteq> f"
  using extName_cases [of f] by (metis append_self_conv2 append_Cons append_assoc list.distinct(1) same_append_eq self_append_conv)

lemma extName_valid: "CHR ''/'' \<notin> set f \<Longrightarrow> extName f \<noteq> [] \<Longrightarrow> valid_name (extName f)"
  using extName_no_slash [of f] extName_no_dot_in [of f] by (auto simp: valid_name_def)

lemma extName_extName: "CHR ''/'' \<notin> set f \<Longrightarrow> extName (extName f) = []"
  by (simp add: extName_no_dot extName_no_slash extName_no_dot_in)

subsection \<open>The paths the script builds\<close>

lemma base_path:
  "list_all valid_name (script_dir w) \<Longrightarrow>
   path_join [dirname w, ''files''] = slash_path (script_dir w @ [''files''])"
  by (simp add: dirname_def path_join_abs_path valid_name_def)

lemma resolve_base:
  "list_all valid_name (script_dir w) \<Longrightarrow> resolve w (slash_path (script_dir w @ [''files''])) = Some []"
  by (simp add: resolve_def base_path)

lemma resolve_child:
  assumes "list_all valid_name (script_dir w)" "CHR ''/'' \<notin> set x"
  shows "resolve w (slash_path (script_dir w @ [''files'', x])) = Some [x]"
proof -
  have "slash_path (script_dir w @ [''files'', x]) = slash_path (script_dir w @ [''files'']) @ CHR ''/'' # x"
    by (simp add: slash_path_def)
  with assms show ?thesis
    by (simp add: resolve_def base_path split_on_no_sep)
qed

lemma resolve_grandchild:
  assumes "list_all valid_name (script_dir w)" "CHR ''/'' \<notin> set x" "CHR ''/'' \<notin> set y"
  shows "resolve w (slash_path (script_dir w @ [''files'', x, y])) = Some [x, y]"
proof -
  have "slash_path (script_dir w @ [''files'', x, y]) =
        slash_path (script_dir w @ [''files'']) @ CHR ''/'' # (x @ CHR ''/'' # y)"
    by (simp add: slash_path_def)
  with assms show ?thesis
    by (simp add: resolve_def base_path split_on_append_sep split_on_no_sep)
qed

lemma files_valid: "valid_name ''files''"
  by (simp add: valid_name_def)

lemma path_join_child:
  assumes "list_all valid_name (script_dir w)" "valid_name x"
  shows "path_join [slash_path (script_dir w @ [''files'']), x] = slash_path (script_dir w @ [''files'', x])"
  using path_join_slash_path [of "script_dir w @ [''files'']" x] assms files_valid by simp

lemma path_join_grandchild:
  assumes "list_all valid_name (script_dir w)" "valid_name x" "valid_name y"
  shows "path_join [slash_path (script_dir w @ [''files'', x]), y] = slash_path (script_dir w @ [''files'', x, y])"
  using path_join_slash_path [of "script_dir w @ [''files'', x]" y] assms files_valid by simp

lemma path_join_base_empty:
  assumes "list_all valid_name (script_dir w)"
  shows "path_join [slash_path (script_dir w @ [''files'']), []] = slash_path (script_dir w @ [''files''])"
  using path_join_empty [of "script_dir w @ [''files'']"] assms files_valid by simp

subsection \<open>The file-system calls at these paths\<close>

lemma rename_node_self:
  "rename_node (Dir r wr es) [f] [f] =
     (case map_of es f of None \<Rightarrow> Inl ENOENT | Some n \<Rightarrow> Inr (Dir r wr es))"
  by (simp add: rename_node_def split: option.splits)

lemma rename_node_into:
  "e \<noteq> f \<Longrightarrow> rename_node (Dir r wr es) [f] [e, f] = map_sum id (Dir r wr) (try_move wr es f e)"
  by (auto simp: rename_node_def try_move_def AList.delete_conv' split: option.splits node.splits sum.splits)


lemma existsSync_base:
  "list_all valid_name (script_dir w) \<Longrightarrow> scanned w = Some t \<Longrightarrow>
   existsSync w (slash_path (script_dir w @ [''files''])) = True"
  by (simp add: existsSync_def resolve_base)

lemma existsSync_child:
  "list_all valid_name (script_dir w) \<Longrightarrow> scanned w = Some (Dir r wr es) \<Longrightarrow> CHR ''/'' \<notin> set x \<Longrightarrow>
   existsSync w (slash_path (script_dir w @ [''files'', x])) = (map_of es x \<noteq> None)"
  by (simp add: existsSync_def resolve_child split: option.splits)

lemma mkdirSync_child:
  "list_all valid_name (script_dir w) \<Longrightarrow> scanned w = Some (Dir r wr es) \<Longrightarrow> CHR ''/'' \<notin> set x \<Longrightarrow>
   map_of es x = None \<Longrightarrow>
   mkdirSync w (slash_path (script_dir w @ [''files'', x])) =
     (if wr then Inr (w\<lparr>scanned := Some (Dir r wr (es @ [(x, Dir True True [])]))\<rparr>) else Inl EACCES)"
  by (simp add: mkdirSync_def resolve_child)

lemma renameSync_self:
  "list_all valid_name (script_dir w) \<Longrightarrow> scanned w = Some (Dir r wr es) \<Longrightarrow> CHR ''/'' \<notin> set f \<Longrightarrow>
   renameSync w (slash_path (script_dir w @ [''files'', f])) (slash_path (script_dir w @ [''files'', f])) =
     (case map_of es f of None \<Rightarrow> Inl ENOENT | Some n \<Rightarrow> Inr w)"
proof -
  assume a: "list_all valid_name (script_dir w)" "scanned w = Some (Dir r wr es)" "CHR ''/'' \<notin> set f"
  have "w\<lparr>scanned := Some (Dir r wr es)\<rparr> = w" using a(2) by (cases w) simp
  then show ?thesis
    using a by (cases "map_of es f") (simp_all add: renameSync_def resolve_child rename_node_self)
qed

lemma renameSync_into:
  "list_all valid_name (script_dir w) \<Longrightarrow> scanned w = Some (Dir r wr es) \<Longrightarrow> CHR ''/'' \<notin> set f \<Longrightarrow>
   CHR ''/'' \<notin> set e \<Longrightarrow> e \<noteq> f \<Longrightarrow>
   renameSync w (slash_path (script_dir w @ [''files'', f])) (slash_path (script_dir w @ [''files'', e, f])) =
     map_sum id (\<lambda>es'. w\<lparr>scanned := Some (Dir r wr es')\<rparr>) (try_move wr es f e)"
  by (cases "try_move wr es f e")
    (simp_all add: renameSync_def resolve_child resolve_grandchild rename_node_into)

lemma organize_entry_step:
  assumes sd: "list_all valid_name (script_dir w)" and f: "valid_name f"
  shows "organize_entry (slash_path (script_dir w @ [''files''])) f (with_entries w r wr (es, out)) =
         map_completion (with_entries w r wr) (step_entries wr f (es, out))"
proof -
  let ?w = "w\<lparr>scanned := Some (Dir r wr es)\<rparr>"
  have sd': "list_all valid_name (script_dir ?w)" and sc: "scanned ?w = Some (Dir r wr es)"
    and dir: "script_dir ?w = script_dir w"
    using sd by simp_all
  from f have ns: "CHR ''/'' \<notin> set f" by (simp add: valid_name_def)
  show ?thesis
  proof (cases "extName f = []")
    case True
    then show ?thesis
      using path_join_base_empty [OF sd'] path_join_child [OF sd' f]
        existsSync_base [OF sd' sc] renameSync_self [OF sd' sc ns]
      by (simp add: organize_entry_def step_entries_def with_entries_def Let_def split: option.splits)
  next
    case False
    let ?e = "extName f"
    have ev: "valid_name ?e" and ens: "CHR ''/'' \<notin> set ?e" and ne: "?e \<noteq> f"
      using False ns by (simp_all add: extName_valid extName_no_slash extName_neq)
    have pj: "path_join [slash_path (script_dir w @ [''files'']), ?e] = slash_path (script_dir w @ [''files'', ?e])"
      "path_join [slash_path (script_dir w @ [''files'']), f] = slash_path (script_dir w @ [''files'', f])"
      "path_join [slash_path (script_dir w @ [''files'', ?e]), f] = slash_path (script_dir w @ [''files'', ?e, f])"
      using path_join_child [OF sd ev] path_join_child [OF sd f] path_join_grandchild [OF sd ev f]
      by simp_all
    show ?thesis
    proof (cases "map_of es ?e = None")
      case ex: False
      then show ?thesis
        using False existsSync_child [OF sd' sc ens] renameSync_into [OF sd' sc ns ens ne]
        by (simp add: organize_entry_def step_entries_def with_entries_def Let_def pj split: sum.splits)
    next
      case nex: True
      show ?thesis
      proof (cases wr)
        case wf: False
        then show ?thesis
          using False nex existsSync_child [OF sd' sc ens] mkdirSync_child [OF sd' sc ens nex]
          by (simp add: organize_entry_def step_entries_def with_entries_def Let_def pj)
      next
        case wt: True
        let ?es1 = "es @ [(?e, Dir True True [])]"
        let ?w1 = "w\<lparr>scanned := Some (Dir r wr ?es1)\<rparr>"
        have sd1: "list_all valid_name (script_dir ?w1)" and sc1: "scanned ?w1 = Some (Dir r wr ?es1)"
          using sd by simp_all
        show ?thesis
          using False nex wt existsSync_child [OF sd' sc ens] mkdirSync_child [OF sd' sc ens nex]
            renameSync_into [OF sd1 sc1 ns ens ne]
          by (simp add: organize_entry_def step_entries_def with_entries_def Let_def pj split: sum.splits)
      qed
    qed
  qed
qed

lemma forEach_organize_entry:
  assumes sd: "list_all valid_name (script_dir w)"
  shows "list_all valid_name fs \<Longrightarrow>
         forEach fs (organize_entry (slash_path (script_dir w @ [''files'']))) (with_entries w r wr (es, out)) =
         map_completion (with_entries w r wr) (forEach fs (step_entries wr) (es, out))"
proof (induction fs arbitrary: es out)
  case Nil
  show ?case by simp
next
  case (Cons f fs)
  then have f: "valid_name f" and fs: "list_all valid_name fs" by simp_all
  show ?case
  proof (cases "step_entries wr f (es, out)")
    case (Normal s)
    obtain es' out' where s: "s = (es', out')" by (cases s)
    with Normal Cons.IH [OF fs, of es' out'] show ?thesis
      by (simp add: organize_entry_step [OF sd f])
  next
    case (Throw err s)
    then show ?thesis
      by (simp add: organize_entry_step [OF sd f])
  qed
qed


lemma main_run:
  assumes wf: "wf_world w" and sc: "scanned w = Some (Dir r wr es)"
  shows "main w =
     (if r then
        (case run_entries wr es of
           Normal s \<Rightarrow> Normal (with_entries w r wr s)
         | Throw err s \<Rightarrow>
             Normal (with_entries w r wr (fst s, snd s @ [ErrorMsg ''Error reading directory:'' err])))
      else Normal (w, [ErrorMsg ''Error reading directory:'' EACCES]))"
proof -
  from wf sc have sd: "list_all valid_name (script_dir w)" and vs: "list_all valid_name (map fst es)"
    by (simp_all add: wf_world_def)
  have w: "(w, []) = with_entries w r wr (es, [])"
    using sc by (cases w) (simp add: with_entries_def)
  show ?thesis
  proof (cases r)
    case False
    with sc sd show ?thesis
      by (simp add: main_def base_path readdirSync_def resolve_base)
  next
    case True
    have rd: "readdirSync w (slash_path (script_dir w @ [''files''])) = Inr (map fst es)"
      using True sc sd by (simp add: readdirSync_def resolve_base)
    have "main w =
        (case forEach (map fst es) (organize_entry (slash_path (script_dir w @ [''files''])))
                (with_entries w r wr (es, [])) of
           Normal s \<Rightarrow> Normal s
         | Throw err (w', out) \<Rightarrow> Normal (w', out @ [ErrorMsg ''Error reading directory:'' err]))"
      by (simp add: main_def base_path [OF sd] rd w [symmetric])
    also have "\<dots> =
        (case run_entries wr es of
           Normal s \<Rightarrow> Normal (with_entries w r wr s)
         | Throw err s \<Rightarrow>
             Normal (with_entries w r wr (fst s, snd s @ [ErrorMsg ''Error reading directory:'' err])))"
      unfolding forEach_organize_entry [OF sd vs] run_entries_def
      by (cases "forEach (map fst es) (step_entries wr) (es, [])")
        (auto simp: with_entries_def split: prod.splits)
    finally show ?thesis using True by simp
  qed
qed
section \<open>One run of the script, entry by entry\<close>

lemma forEach_invariant:
  assumes "P (fst s)"
    and "\<And>g es out. g \<in> set gs \<Longrightarrow> P es \<Longrightarrow> P (fst (state_of (step_entries wr g (es, out))))"
  shows "P (fst (state_of (forEach gs (step_entries wr) s)))"
  using assms
proof (induction gs arbitrary: s)
  case Nil
  then show ?case by simp
next
  case (Cons g gs)
  obtain es out where s: "s = (es, out)" by (cases s)
  have step: "P (fst (state_of (step_entries wr g (es, out))))"
    using Cons.prems s by simp
  show ?case
  proof (cases "step_entries wr g (es, out)")
    case (Normal s')
    with step have "P (fst s')" by simp
    then have "P (fst (state_of (forEach gs (step_entries wr) s')))"
      using Cons.prems(2) by (intro Cons.IH) simp_all
    with Normal s show ?thesis by simp
  next
    case (Throw err s')
    with step s show ?thesis by simp
  qed
qed

lemma final_entries_run:
  assumes "wf_world w" "scanned w = Some (Dir r wr es)"
  shows "final_entries w = (if r then fst (state_of (run_entries wr es)) else es)"
  using assms(2) unfolding final_entries_def main_run [OF assms]
  by (cases "run_entries wr es") (auto simp: with_entries_def split: prod.splits)

lemma try_move_Inr:
  assumes "try_move wr es g e = Inr es'"
  obtains sn dr dw des where "map_of es g = Some sn" "map_of es e = Some (Dir dr dw des)"
    "es' = AList.update e (Dir dr dw (AList.update g sn des)) (AList.delete g es)"
proof (cases "map_of es g")
  case None
  with assms show ?thesis by (simp add: try_move_def)
next
  case (Some sn)
  note sn = this
  show ?thesis
  proof (cases "map_of es e")
    case None
    with assms sn show ?thesis by (simp add: try_move_def)
  next
    case (Some d)
    show ?thesis
    proof (cases d)
      case (File c)
      with assms sn Some show ?thesis by (simp add: try_move_def)
    next
      case (Dir dr dw des)
      with assms sn Some
      have "es' = AList.update e (Dir dr dw (AList.update g sn des)) (AList.delete g es)"
        by (simp add: try_move_def split: if_splits option.splits)
      with sn Some Dir that show ?thesis by blast
    qed
  qed
qed

lemma step_entries_cases:
  obtains (same) "fst (state_of (step_entries wr g (es, out))) = es"
  | (made) "extName g \<noteq> []" "map_of es (extName g) = None" wr
      "fst (state_of (step_entries wr g (es, out))) = es @ [(extName g, Dir True True [])]"
  | (moved) es0 sn dr dw des where "extName g \<noteq> []"
      "es0 = es \<or> (map_of es (extName g) = None \<and> wr \<and> es0 = es @ [(extName g, Dir True True [])])"
      "map_of es0 g = Some sn" "map_of es0 (extName g) = Some (Dir dr dw des)"
      "fst (state_of (step_entries wr g (es, out))) =
         AList.update (extName g) (Dir dr dw (AList.update g sn des)) (AList.delete g es0)"
proof (cases "extName g = []")
  case True
  then have "fst (state_of (step_entries wr g (es, out))) = es"
    by (simp add: step_entries_def)
  then show ?thesis by (rule same)
next
  case ne: False
  show ?thesis
  proof (cases "map_of es (extName g) = None")
    case ex: False
    show ?thesis
    proof (cases "try_move wr es g (extName g)")
      case (Inl err)
      with ne ex have "fst (state_of (step_entries wr g (es, out))) = es"
        by (simp add: step_entries_def)
      then show ?thesis by (rule same)
    next
      case (Inr es')
      with ne ex have r: "fst (state_of (step_entries wr g (es, out))) = es'"
        by (simp add: step_entries_def)
      from Inr obtain sn dr dw des where "map_of es g = Some sn"
        "map_of es (extName g) = Some (Dir dr dw des)"
        "es' = AList.update (extName g) (Dir dr dw (AList.update g sn des)) (AList.delete g es)"
        by (rule try_move_Inr)
      with r ne show ?thesis by (intro moved [of es sn dr dw des]) simp_all
    qed
  next
    case nex: True
    show ?thesis
    proof (cases wr)
      case False
      with ne nex have "fst (state_of (step_entries wr g (es, out))) = es"
        by (simp add: step_entries_def)
      then show ?thesis by (rule same)
    next
      case True
      let ?es1 = "es @ [(extName g, Dir True True [])]"
      show ?thesis
      proof (cases "try_move wr ?es1 g (extName g)")
        case (Inl err)
        with ne nex True have "fst (state_of (step_entries wr g (es, out))) = ?es1"
          by (simp add: step_entries_def)
        with ne nex True show ?thesis by (intro made) simp_all
      next
        case (Inr es')
        with ne nex True have r: "fst (state_of (step_entries wr g (es, out))) = es'"
          by (simp add: step_entries_def)
        from Inr obtain sn dr dw des where "map_of ?es1 g = Some sn"
          "map_of ?es1 (extName g) = Some (Dir dr dw des)"
          "es' = AList.update (extName g) (Dir dr dw (AList.update g sn des)) (AList.delete g ?es1)"
          by (rule try_move_Inr)
        with r ne nex True show ?thesis by (intro moved [of ?es1 sn dr dw des]) simp_all
      qed
    qed
  qed
qed

lemma map_of_snoc_other [simp]: "k \<noteq> e \<Longrightarrow> ([e \<mapsto> d] ++ map_of es) k = map_of es k"
  by (simp add: map_add_def split: option.splits)

lemma map_of_snoc_new [simp]: "map_of es e = None \<Longrightarrow> ([e \<mapsto> d] ++ map_of es) e = Some d"
  by (simp add: map_add_def)

lemma step_other:
  assumes "k \<noteq> g" "k \<noteq> extName g"
  shows "map_of (fst (state_of (step_entries wr g (es, out)))) k = map_of es k"
proof (cases rule: step_entries_cases [of wr g es out])
  case same
  then show ?thesis by simp
next
  case made
  with assms show ?thesis by simp
next
  case (moved es0 sn dr dw des)
  from moved(2) assms have "map_of es0 k = map_of es k"
    by auto
  with moved(5) assms show ?thesis
    by (simp add: AList.update_conv' AList.delete_conv')
qed


lemma step_entries_fst:
  "fst (state_of (step_entries wr g (es, out))) = next_entries wr g es"
  by (simp add: next_entries_def step_entries_def Let_def split: sum.splits)

lemma same_kind_refl [simp]: "same_kind d d"
  by (cases d) simp_all

lemma same_kind_trans: "same_kind a b \<Longrightarrow> same_kind b c \<Longrightarrow> same_kind a c"
  by (cases a; cases b; cases c) simp_all

lemma step_keeps:
  assumes k: "extName k = []" and d: "map_of es k = Some d"
  shows "\<exists>d'. map_of (next_entries wr g es) k = Some d' \<and> same_kind d d' \<and>
           (\<forall>j. j \<noteq> g \<longrightarrow> map_of (entries d') j = map_of (entries d) j) \<and>
           (k \<noteq> extName g \<longrightarrow> d' = d)"
proof (cases rule: step_entries_cases [of wr g es "[]"])
  case same
  with d show ?thesis by (simp add: next_entries_def)
next
  case made
  with d have "k \<noteq> extName g" by auto
  with made d show ?thesis by (simp add: next_entries_def)
next
  case (moved es0 sn dr dw des)
  from moved(1) k have kg: "k \<noteq> g" by auto
  show ?thesis
  proof (cases "k = extName g")
    case False
    from moved(2) d False have "map_of es0 k = Some d" by auto
    with moved(5) kg False show ?thesis
      by (simp add: next_entries_def AList.update_conv' AList.delete_conv')
  next
    case True
    with moved(2) d have "es0 = es" by auto
    with moved(4) d True have dd: "d = Dir dr dw des" by simp
    from moved(5) True have "map_of (next_entries wr g es) k = Some (Dir dr dw (AList.update g sn des))"
      by (simp add: next_entries_def AList.update_conv')
    with dd True show ?thesis by (simp add: AList.update_conv')
  qed
qed

lemma step_located:
  assumes f: "CHR ''/'' \<notin> set f" and g: "CHR ''/'' \<notin> set g"
    and loc: "located f es = Some n"
  shows "\<exists>n'. located f (next_entries wr g es) = Some n' \<and> same_kind n n'"
proof (cases "map_of es f")
  case (Some m)
  with loc have m: "m = n" by (simp add: located_def)
  show ?thesis
  proof (cases "f = g")
    case False
    show ?thesis
    proof (cases "f = extName g")
      case fe: False
      from step_other [OF False fe, of wr es "[]"] Some m show ?thesis
        by (simp add: next_entries_def located_def)
    next
      case True
      with g have "extName f = []" by (simp add: extName_extName)
      from step_keeps [OF this Some, of wr g] m show ?thesis
        by (auto simp: located_def)
    qed
  next
    case True
    show ?thesis
    proof (cases rule: step_entries_cases [of wr g es "[]"])
      case same
      with loc show ?thesis by (auto simp: next_entries_def)
    next
      case made
      with Some True have "g \<noteq> extName g" by auto
      with made Some True m show ?thesis by (simp add: next_entries_def located_def)
    next
      case (moved es0 sn dr dw des)
      from moved(1) g have ne: "extName g \<noteq> g" by (rule extName_neq [rotated])
      from moved(2) ne Some True m have "map_of es0 g = Some n" by auto
      with moved(3) have sn: "sn = n" by simp
      from moved(5) ne have "map_of (next_entries wr g es) g = None"
        "map_of (next_entries wr g es) (extName g) = Some (Dir dr dw (AList.update g sn des))"
        by (simp_all add: next_entries_def AList.update_conv' AList.delete_conv')
      with moved(1) True sn show ?thesis
        by (simp add: located_def AList.update_conv')
    qed
  qed
next
  case None
  with loc obtain d where e: "extName f \<noteq> []" and d: "map_of es (extName f) = Some d"
    and n: "map_of (entries d) f = Some n"
    by (auto simp: located_def split: if_splits option.splits)
  have ee: "extName (extName f) = []" using f by (rule extName_extName)
  show ?thesis
  proof (cases "f = g")
    case True
    have "next_entries wr g es = es"
    proof (cases rule: step_entries_cases [of wr g es "[]"])
      case same
      then show ?thesis by (simp add: next_entries_def)
    next
      case made
      with d True show ?thesis by simp
    next
      case (moved es0 sn dr dw des)
      with d True None show ?thesis by auto
    qed
    with loc show ?thesis by auto
  next
    case False
    from e g have "f \<noteq> extName g" using extName_extName [of g] by auto
    from step_other [OF False this, of wr es "[]"] None
    have 1: "map_of (next_entries wr g es) f = None" by (simp add: next_entries_def)
    from step_keeps [OF ee d, of wr g] obtain d' where
      "map_of (next_entries wr g es) (extName f) = Some d'"
      "\<forall>j. j \<noteq> g \<longrightarrow> map_of (entries d') j = map_of (entries d) j" by blast
    with False n 1 e show ?thesis by (simp add: located_def)
  qed
qed


lemma run_invariant:
  assumes "P es"
    and "\<And>g es. g \<in> set gs \<Longrightarrow> P es \<Longrightarrow> P (next_entries wr g es)"
  shows "P (fst (state_of (forEach gs (step_entries wr) (es, out))))"
proof (rule forEach_invariant)
  show "P (fst (es, out))" using assms(1) by simp
next
  fix g es' out'
  assume "g \<in> set gs" "P es'"
  then show "P (fst (state_of (step_entries wr g (es', out'))))"
    unfolding step_entries_fst by (rule assms(2))
qed

lemma final_invariant:
  assumes wf: "wf_world w" and sc: "scanned w = Some (Dir r wr es)"
    and P: "P es"
    and step: "\<And>g es. g \<in> fst ` set es0 \<Longrightarrow> P es \<Longrightarrow> P (next_entries wr g es)"
    and es0: "es0 = es"
  shows "P (final_entries w)"
proof (cases r)
  case False
  with P show ?thesis by (simp add: final_entries_run [OF wf sc])
next
  case True
  have "P (fst (state_of (forEach (map fst es) (step_entries wr) (es, []))))"
  proof (rule run_invariant)
    show "P es" by (rule P)
  next
    fix g es'
    assume "g \<in> set (map fst es)" "P es'"
    then show "P (next_entries wr g es')" using step es0 by simp
  qed
  with True show ?thesis by (simp add: final_entries_run [OF wf sc] run_entries_def)
qed

lemma wf_world_names:
  "wf_world w \<Longrightarrow> scanned w = Some (Dir r wr es) \<Longrightarrow> g \<in> fst ` set es \<Longrightarrow> CHR ''/'' \<notin> set g"
  by (auto simp: wf_world_def list_all_iff valid_name_def)


lemma map_of_in_names: "map_of es f = Some n \<Longrightarrow> f \<in> fst ` set es"
  by (rule map_of_SomeD [THEN imageI, of _ _ _ fst, simplified])

lemma try_move_succeeds:
  assumes "map_of es f = Some sn" "movable sn" "map_of es e = Some d" "can_receive sn f d"
  shows "\<exists>dr des. d = Dir dr True des \<and>
           try_move True es f e = Inr (AList.update e (Dir dr True (AList.update f sn des)) (AList.delete f es))"
proof (cases d)
  case (File c)
  with assms show ?thesis by simp
next
  case (Dir dr dw des)
  with assms have dw: dw by simp
  show ?thesis
  proof (cases "map_of des f")
    case None
    with assms Dir dw show ?thesis by (simp add: try_move_def movable_def)
  next
    case (Some dn)
    with assms Dir dw show ?thesis by (auto simp: try_move_def movable_def)
  qed
qed

lemma step_moves:
  assumes f: "CHR ''/'' \<notin> set f" and e: "extName f \<noteq> []"
    and sn: "map_of es f = Some sn" "movable sn"
    and d: "case map_of es (extName f) of None \<Rightarrow> True | Some d \<Rightarrow> can_receive sn f d"
  shows "map_of (next_entries True f es) f = None \<and>
         (\<exists>dr des. map_of (next_entries True f es) (extName f) = Some (Dir dr True des) \<and>
             map_of des f = Some sn \<and>
             (\<forall>d. map_of es (extName f) = Some d \<longrightarrow> same_kind d (Dir dr True des)))"
proof -
  from e f have ne: "extName f \<noteq> f" by (rule extName_neq [rotated])
  show ?thesis
  proof (cases "map_of es (extName f)")
    case (Some d0)
    with d have "can_receive sn f d0" by simp
    from try_move_succeeds [OF sn Some this] obtain dr des where
      d0: "d0 = Dir dr True des" and
      "try_move True es f (extName f) =
         Inr (AList.update (extName f) (Dir dr True (AList.update f sn des)) (AList.delete f es))"
      by blast
    with e Some have "next_entries True f es =
        AList.update (extName f) (Dir dr True (AList.update f sn des)) (AList.delete f es)"
      by (simp add: next_entries_def step_entries_def Let_def)
    with ne Some d0 show ?thesis
      by (simp add: AList.update_conv' AList.delete_conv')
  next
    case None
    let ?es1 = "es @ [(extName f, Dir True True [])]"
    have 1: "map_of ?es1 f = Some sn" using sn ne by simp
    have 2: "map_of ?es1 (extName f) = Some (Dir True True [])" using None by simp
    from try_move_succeeds [OF 1 sn(2) 2]
    have "try_move True ?es1 f (extName f) =
         Inr (AList.update (extName f) (Dir True True (AList.update f sn [])) (AList.delete f ?es1))"
      by auto
    with e None have "next_entries True f es =
        AList.update (extName f) (Dir True True (AList.update f sn [])) (AList.delete f ?es1)"
      by (simp add: next_entries_def step_entries_def Let_def)
    with ne None show ?thesis
      by (auto simp: AList.update_conv' AList.delete_conv')
  qed
qed

text \<open>Before its turn, an entry that can be moved stays so while other entries are handled.\<close>

lemma step_keeps_ready:
  assumes f: "CHR ''/'' \<notin> set f" and g: "CHR ''/'' \<notin> set g" and e: "extName f \<noteq> []"
    and gf: "g \<noteq> f"
    and sn: "map_of es f = Some sn"
    and d: "case map_of es (extName f) of None \<Rightarrow> True | Some d \<Rightarrow> can_receive sn f d"
  shows "map_of (next_entries wr g es) f = Some sn \<and>
         (case map_of (next_entries wr g es) (extName f) of None \<Rightarrow> True | Some d \<Rightarrow> can_receive sn f d)"
proof -
  have ee: "extName (extName f) = []" using f by (rule extName_extName)
  from e g have fe: "f \<noteq> extName g" using extName_extName [of g] by auto
  from step_other [OF gf [symmetric] fe, of wr es "[]"] sn
  have 1: "map_of (next_entries wr g es) f = Some sn" by (simp add: next_entries_def)
  have 2: "case map_of (next_entries wr g es) (extName f) of None \<Rightarrow> True | Some d \<Rightarrow> can_receive sn f d"
  proof (cases "map_of es (extName f)")
    case (Some d0)
    with d have cr: "can_receive sn f d0" by simp
    from step_keeps [OF ee Some, of wr g] obtain d' where
      d': "map_of (next_entries wr g es) (extName f) = Some d'" "same_kind d0 d'"
      "\<forall>j. j \<noteq> g \<longrightarrow> map_of (entries d') j = map_of (entries d0) j" by blast
    with gf have "map_of (entries d') f = map_of (entries d0) f" by simp
    with cr d'(2) have "can_receive sn f d'"
      by (cases d0; cases d') simp_all
    with d'(1) show ?thesis by simp
  next
    case None
    show ?thesis
    proof (cases rule: step_entries_cases [of wr g es "[]"])
      case same
      with None show ?thesis by (simp add: next_entries_def)
    next
      case made
      then show ?thesis
        by (cases "extName f = extName g") (simp_all add: next_entries_def None)
    next
      case (moved es0 sn' dr dw des)
      show ?thesis
      proof (cases "extName f = extName g")
        case True
        with moved(2,4) None have "es0 = es @ [(extName g, Dir True True [])]" by auto
        with moved(4) True None have "dw" "des = []" by simp_all
        with moved(5) True gf show ?thesis
          by (simp add: next_entries_def AList.update_conv')
      next
        case False
        have "extName f \<noteq> g" using None moved(2,3) False by (auto split: if_splits)
        from step_other [OF this False, of wr es "[]"] None show ?thesis
          by (simp add: next_entries_def)
      qed
    qed
  qed
  from 1 2 show ?thesis by simp
qed

text \<open>After its move, an entry stays at its destination while other entries are handled.\<close>

lemma step_keeps_moved:
  assumes f: "CHR ''/'' \<notin> set f" and g: "CHR ''/'' \<notin> set g" and e: "extName f \<noteq> []"
    and gone: "map_of es f = None"
    and d: "map_of es (extName f) = Some d" "map_of (entries d) f = Some sn"
  shows "map_of (next_entries wr g es) f = None \<and>
         (\<exists>d'. map_of (next_entries wr g es) (extName f) = Some d' \<and> same_kind d d' \<and>
            map_of (entries d') f = Some sn)"
proof -
  have loc: "located f es = Some sn" using gone e d by (simp add: located_def)
  from step_located [OF f g loc, of wr] obtain n' where
    n': "located f (next_entries wr g es) = Some n'" by blast
  have ee: "extName (extName f) = []" using f by (rule extName_extName)
  show ?thesis
  proof (cases "f = g")
    case True
    have "next_entries wr g es = es"
    proof (cases rule: step_entries_cases [of wr g es "[]"])
      case same
      then show ?thesis by (simp add: next_entries_def)
    next
      case made
      with d True show ?thesis by simp
    next
      case (moved es0 sn dr dw des)
      with d True gone show ?thesis by auto
    qed
    with gone d show ?thesis by auto
  next
    case False
    from e g have "f \<noteq> extName g" using extName_extName [of g] by auto
    from step_other [OF False this, of wr es "[]"] gone
    have 1: "map_of (next_entries wr g es) f = None" by (simp add: next_entries_def)
    from step_keeps [OF ee d(1), of wr g] obtain d' where
      "map_of (next_entries wr g es) (extName f) = Some d'" "same_kind d d'"
      "\<forall>j. j \<noteq> g \<longrightarrow> map_of (entries d') j = map_of (entries d) j" by blast
    with False d(2) 1 show ?thesis by auto
  qed
qed


lemma step_entries_writable:
  "\<exists>out'. step_entries True g (es, out) = Normal (next_entries True g es, out')"
  by (simp add: next_entries_def step_entries_def Let_def split: sum.splits)

lemma forEach_Cons_writable:
  "\<exists>out'. forEach (g # gs) (step_entries True) (es, out) =
          forEach gs (step_entries True) (next_entries True g es, out')"
proof -
  from step_entries_writable [of g es out] obtain out' where
    "step_entries True g (es, out) = Normal (next_entries True g es, out')" by blast
  then show ?thesis by auto
qed

lemma run_moves:
  assumes "f \<in> set gs" and "\<forall>g\<in>set gs. CHR ''/'' \<notin> set g" and "extName f \<noteq> []"
    and "map_of es f = Some sn" and "movable sn"
    and "case map_of es (extName f) of None \<Rightarrow> True | Some d \<Rightarrow> can_receive sn f d"
  shows "map_of (fst (state_of (forEach gs (step_entries True) (es, out)))) f = None \<and>
         (\<exists>d'. map_of (fst (state_of (forEach gs (step_entries True) (es, out)))) (extName f) = Some d' \<and>
            is_dir d' \<and> map_of (entries d') f = Some sn)"
  using assms
proof (induction gs arbitrary: es out)
  case Nil
  then show ?case by simp
next
  case (Cons g gs)
  from Cons.prems have fs: "CHR ''/'' \<notin> set f" by auto
  from Cons.prems have gs: "CHR ''/'' \<notin> set g" by simp
  obtain out' where run: "forEach (g # gs) (step_entries True) (es, out) =
          forEach gs (step_entries True) (next_entries True g es, out')"
    using forEach_Cons_writable by blast
  let ?A = "\<lambda>es'. map_of es' f = None \<and>
         (\<exists>d'. map_of es' (extName f) = Some d' \<and> is_dir d' \<and> map_of (entries d') f = Some sn)"
  show ?case
  proof (cases "g = f")
    case True
    from step_moves [OF fs Cons.prems(3,4,5,6)]
    have A: "?A (next_entries True g es)" using True by auto
    have "?A (fst (state_of (forEach gs (step_entries True) (next_entries True g es, out'))))"
    proof (rule run_invariant [where P = ?A])
      show "?A (next_entries True g es)" by (rule A)
    next
      fix h es'
      assume h: "h \<in> set gs" and A': "?A es'"
      from h Cons.prems(2) have hs: "CHR ''/'' \<notin> set h" by simp
      from A' obtain d' where d': "map_of es' f = None" "map_of es' (extName f) = Some d'"
        "is_dir d'" "map_of (entries d') f = Some sn" by blast
      from step_keeps_moved [OF fs hs Cons.prems(3) d'(1,2,4), of True] d'(3)
      show "?A (next_entries True h es')"
        by (metis is_dir.simps same_kind.elims(2))
    qed
    with run show ?thesis by simp
  next
    case False
    with Cons.prems(1) have "f \<in> set gs" by simp
    moreover from Cons.prems(2) have "\<forall>g\<in>set gs. CHR ''/'' \<notin> set g" by simp
    moreover from step_keeps_ready [OF fs gs Cons.prems(3) False Cons.prems(4,6), of True]
    have "map_of (next_entries True g es) f = Some sn"
      "case map_of (next_entries True g es) (extName f) of None \<Rightarrow> True | Some d \<Rightarrow> can_receive sn f d"
      by simp_all
    ultimately have "?A (fst (state_of (forEach gs (step_entries True) (next_entries True g es, out'))))"
      using Cons.prems(3,5) by (intro Cons.IH) simp_all
    with run show ?thesis by simp
  qed
qed

lemma final_moves:
  assumes wf: "wf_world w" and sc: "scanned w = Some (Dir True True es)"
    and e: "extName f \<noteq> []" and sn: "map_of es f = Some sn" "movable sn"
    and d: "case map_of es (extName f) of None \<Rightarrow> True | Some d \<Rightarrow> can_receive sn f d"
  shows "map_of (final_entries w) f = None \<and>
         (\<exists>d'. map_of (final_entries w) (extName f) = Some d' \<and> is_dir d' \<and>
            map_of (entries d') f = Some sn)"
proof -
  have "\<forall>g\<in>set (map fst es). CHR ''/'' \<notin> set g"
    using wf_world_names [OF wf sc] by simp
  moreover have "f \<in> set (map fst es)" using sn(1) by (simp add: map_of_in_names)
  ultimately show ?thesis
    unfolding final_entries_run [OF wf sc] run_entries_def
    using run_moves [of f "map fst es" es sn "[]"] e sn d by simp
qed

subsection \<open>A second run\<close>

lemma next_entries_no_ext: "extName g = [] \<Longrightarrow> next_entries wr g es = es"
  by (simp add: next_entries_def step_entries_def)

lemma next_entries_not_writable: "next_entries False g es = es"
proof (cases "try_move False es g (extName g)")
  case (Inl err)
  then show ?thesis by (simp add: next_entries_def step_entries_def Let_def)
next
  case (Inr es')
  then show ?thesis
    by (auto simp: try_move_def split: option.splits node.splits)
qed

lemma next_entries_exists:
  assumes "extName g \<noteq> []" "map_of es (extName g) \<noteq> None"
  shows "next_entries wr g es = (case try_move wr es g (extName g) of Inl err \<Rightarrow> es | Inr es' \<Rightarrow> es')"
  using assms by (simp add: next_entries_def step_entries_def Let_def split: sum.splits)

lemma next_entries_mkdir:
  assumes "extName g \<noteq> []" "map_of es (extName g) = None"
  shows "next_entries True g es =
     (case try_move True (es @ [(extName g, Dir True True [])]) g (extName g) of
        Inl err \<Rightarrow> es @ [(extName g, Dir True True [])] | Inr es' \<Rightarrow> es')"
  using assms by (simp add: next_entries_def step_entries_def Let_def split: sum.splits)

lemma try_move_gone:
  assumes "try_move wr es g e = Inr es'" "e \<noteq> g"
  shows "map_of es' g = None" "map_of es' e \<noteq> None" "map_of es g \<noteq> None"
proof -
  from assms(1) obtain sn dr dw des where *: "map_of es g = Some sn"
    "es' = AList.update e (Dir dr dw (AList.update g sn des)) (AList.delete g es)"
    by (rule try_move_Inr)
  with assms(2) show "map_of es' g = None" "map_of es' e \<noteq> None" "map_of es g \<noteq> None"
    by (simp_all add: AList.update_conv' AList.delete_conv')
qed

lemma try_move_missing: "map_of es g = None \<Longrightarrow> try_move wr es g e = Inl ENOENT"
  by (simp add: try_move_def)

text \<open>Handling the same name twice changes nothing the second time.\<close>

lemma step_twice:
  assumes g: "CHR ''/'' \<notin> set g"
  shows "next_entries True g (next_entries True g es) = next_entries True g es"
proof (cases "extName g = []")
  case True
  then show ?thesis by (simp add: next_entries_no_ext)
next
  case False
  with g have ne: "extName g \<noteq> g" by (rule extName_neq)
  have after: "next_entries True g es' = es'"
    if "try_move True es0 g (extName g) = Inr es'" for es0 es'
  proof -
    from try_move_gone [OF that ne] have "map_of es' g = None" "map_of es' (extName g) \<noteq> None"
      by simp_all
    then show ?thesis
      using False by (simp add: next_entries_exists try_move_missing)
  qed
  show ?thesis
  proof (cases "map_of es (extName g) = None")
    case ex: False
    show ?thesis
    proof (cases "try_move True es g (extName g)")
      case (Inl err)
      with False ex show ?thesis by (simp add: next_entries_exists)
    next
      case (Inr es')
      with False ex after [OF Inr] show ?thesis by (simp add: next_entries_exists)
    qed
  next
    case True
    let ?es1 = "es @ [(extName g, Dir True True [])]"
    have ex1: "map_of ?es1 (extName g) \<noteq> None" using True by simp
    show ?thesis
    proof (cases "try_move True ?es1 g (extName g)")
      case (Inl err)
      with False True have "next_entries True g es = ?es1" by (simp add: next_entries_mkdir)
      moreover have "next_entries True g ?es1 = ?es1"
        unfolding next_entries_exists [OF False ex1] Inl by simp
      ultimately show ?thesis by simp
    next
      case (Inr es')
      with False True after [OF Inr] show ?thesis by (simp add: next_entries_mkdir)
    qed
  qed
qed

text \<open>
  Whether a move fails depends on the node to move, on the kind and permissions of the
  directory it goes to, and on what that directory holds under the same name.
\<close>

lemma try_move_isl_cong:
  assumes "map_of es' g = map_of es g"
    and "map_of es e = Some d" "map_of es' e = Some d'" "same_kind d d'"
    and "map_of (entries d') g = map_of (entries d) g"
  shows "isl (try_move wr es' g e) = isl (try_move wr es g e)"
proof (cases "map_of es g")
  case None
  with assms(1) show ?thesis by (simp add: try_move_def)
next
  case (Some sn)
  show ?thesis
  proof (cases d)
    case (File c)
    with assms(4) have "d' = File c" by (cases d') simp_all
    with File Some assms show ?thesis by (simp add: try_move_def)
  next
    case (Dir dr dw des)
    with assms(4) obtain des' where d': "d' = Dir dr dw des'" by (cases d') simp_all
    with Dir assms(5) have "map_of des' g = map_of des g" by simp
    with Dir d' Some assms(1,2,3) show ?thesis
      by (cases "map_of des g") (simp_all add: try_move_def)
  qed
qed

lemma settled_iff:
  assumes "CHR ''/'' \<notin> set g" "extName g \<noteq> []" "map_of es g \<noteq> None"
  shows "(next_entries True g es = es) =
         (map_of es (extName g) \<noteq> None \<and> isl (try_move True es g (extName g)))"
proof -
  from assms have ne: "extName g \<noteq> g" by (simp add: extName_neq)
  show ?thesis
  proof (cases "map_of es (extName g) = None")
    case True
    let ?es1 = "es @ [(extName g, Dir True True [])]"
    have "next_entries True g es \<noteq> es"
    proof (cases "try_move True ?es1 g (extName g)")
      case (Inl err)
      with assms True show ?thesis by (simp add: next_entries_mkdir)
    next
      case (Inr es')
      from try_move_gone(1) [OF Inr ne] assms(3) have "es' \<noteq> es" by auto
      with Inr assms True show ?thesis by (simp add: next_entries_mkdir)
    qed
    with True show ?thesis by simp
  next
    case False
    show ?thesis
    proof (cases "try_move True es g (extName g)")
      case (Inl err)
      with assms False show ?thesis by (simp add: next_entries_exists)
    next
      case (Inr es')
      from try_move_gone(1) [OF Inr ne] assms(3) have "es' \<noteq> es" by auto
      with Inr assms False show ?thesis by (simp add: next_entries_exists)
    qed
  qed
qed


lemma step_keeps_settled:
  assumes f: "CHR ''/'' \<notin> set f" and g: "CHR ''/'' \<notin> set g"
    and ex: "map_of es f \<noteq> None" and st: "next_entries True f es = es"
  shows "next_entries True f (next_entries True g es) = next_entries True g es"
proof (cases "extName f = []")
  case True
  then show ?thesis by (simp add: next_entries_no_ext)
next
  case e: False
  show ?thesis
  proof (cases "g = f")
    case True
    with st show ?thesis by simp
  next
    case False
    have ee: "extName (extName f) = []" using f by (rule extName_extName)
    from settled_iff [OF f e ex] st obtain d where
      d: "map_of es (extName f) = Some d" and fail: "isl (try_move True es f (extName f))"
      by auto
    from e g have fe: "f \<noteq> extName g" using extName_extName [of g] by auto
    from step_other [OF False [symmetric] fe, of True es "[]"]
    have 1: "map_of (next_entries True g es) f = map_of es f" by (simp add: next_entries_def)
    from step_keeps [OF ee d, of True g] obtain d' where
      d': "map_of (next_entries True g es) (extName f) = Some d'" "same_kind d d'"
      "\<forall>j. j \<noteq> g \<longrightarrow> map_of (entries d') j = map_of (entries d) j" by blast
    with False have 2: "map_of (entries d') f = map_of (entries d) f" by simp
    from try_move_isl_cong [OF 1 d d'(1,2) 2, of True] fail
    have "isl (try_move True (next_entries True g es) f (extName f))" by simp
    with d'(1) 1 ex settled_iff [OF f e, of "next_entries True g es"] show ?thesis by simp
  qed
qed

lemma step_new_name:
  assumes "map_of es k = None" "map_of (next_entries wr g es) k \<noteq> None"
  shows "k = extName g"
proof (rule ccontr)
  assume ne: "k \<noteq> extName g"
  show False
  proof (cases "k = g")
    case False
    from step_other [OF False ne, of wr es "[]"] assms show False
      by (simp add: next_entries_def)
  next
    case True
    show False
    proof (cases rule: step_entries_cases [of wr g es "[]"])
      case same
      with assms show False by (simp add: next_entries_def)
    next
      case made
      with assms ne show False by (simp add: next_entries_def)
    next
      case (moved es0 sn dr dw des)
      with assms ne True show False by auto
    qed
  qed
qed

lemma step_names:
  "fst ` set (next_entries wr g es) \<subseteq> insert (extName g) (fst ` set es)"
proof
  fix k
  assume "k \<in> fst ` set (next_entries wr g es)"
  then have in': "map_of (next_entries wr g es) k \<noteq> None"
    by (simp add: map_of_eq_None_iff)
  show "k \<in> insert (extName g) (fst ` set es)"
  proof (cases "map_of es k")
    case None
    from step_new_name [OF None in'] show ?thesis by simp
  next
    case (Some n)
    then show ?thesis by (simp add: map_of_in_names)
  qed
qed

lemma step_valid_names:
  assumes "list_all valid_name (map fst es)" "CHR ''/'' \<notin> set g"
  shows "list_all valid_name (map fst (next_entries wr g es))"
proof -
  have "valid_name k" if "k \<in> fst ` set (next_entries wr g es)" for k
  proof (cases "k \<in> fst ` set es")
    case True
    with assms(1) show ?thesis by (auto simp: list_all_iff)
  next
    case False
    with that step_names [of wr g es] have k: "k = extName g" by auto
    from False have "map_of es k = None" by (simp add: map_of_eq_None_iff)
    moreover from that have "map_of (next_entries wr g es) k \<noteq> None"
      by (simp add: map_of_eq_None_iff)
    ultimately have "next_entries wr g es \<noteq> es" by auto
    then have "extName g \<noteq> []" using next_entries_no_ext by blast
    with assms(2) k show ?thesis by (simp add: extName_valid)
  qed
  then show ?thesis by (auto simp: list_all_iff)
qed

lemma run_settles:
  assumes "\<forall>g\<in>set gs. CHR ''/'' \<notin> set g"
    and "\<forall>k. map_of es k \<noteq> None \<longrightarrow> CHR ''/'' \<notin> set k"
    and "\<forall>k. map_of es k \<noteq> None \<longrightarrow> k \<in> set gs \<or> next_entries True k es = es"
  shows "\<forall>k. map_of (fst (state_of (forEach gs (step_entries True) (es, out)))) k \<noteq> None \<longrightarrow>
           next_entries True k (fst (state_of (forEach gs (step_entries True) (es, out)))) =
           fst (state_of (forEach gs (step_entries True) (es, out)))"
  using assms
proof (induction gs arbitrary: es out)
  case Nil
  then show ?case by simp
next
  case (Cons g gs)
  from Cons.prems(1) have gs: "CHR ''/'' \<notin> set g" by simp
  obtain out' where run: "forEach (g # gs) (step_entries True) (es, out) =
          forEach gs (step_entries True) (next_entries True g es, out')"
    using forEach_Cons_writable by blast
  let ?es1 = "next_entries True g es"
  have new: "k = extName g" if "map_of es k = None" "map_of ?es1 k \<noteq> None" for k
    using that by (rule step_new_name)
  have 2: "\<forall>k. map_of ?es1 k \<noteq> None \<longrightarrow> CHR ''/'' \<notin> set k"
  proof (intro allI impI)
    fix k assume k: "map_of ?es1 k \<noteq> None"
    show "CHR ''/'' \<notin> set k"
    proof (cases "map_of es k = None")
      case True
      from new [OF True k] gs show ?thesis by (simp add: extName_no_slash)
    next
      case False
      with Cons.prems(2) show ?thesis by simp
    qed
  qed
  have 3: "\<forall>k. map_of ?es1 k \<noteq> None \<longrightarrow> k \<in> set gs \<or> next_entries True k ?es1 = ?es1"
  proof (intro allI impI)
    fix k assume k: "map_of ?es1 k \<noteq> None"
    show "k \<in> set gs \<or> next_entries True k ?es1 = ?es1"
    proof (cases "k = g")
      case True
      with gs show ?thesis by (simp add: step_twice)
    next
      case kg: False
      show ?thesis
      proof (cases "map_of es k = None")
        case True
        from new [OF True k] gs have "extName k = []" by (simp add: extName_extName)
        then show ?thesis by (simp add: next_entries_no_ext)
      next
        case False
        with Cons.prems(2) have ks: "CHR ''/'' \<notin> set k" by simp
        from False Cons.prems(3) kg have "k \<in> set gs \<or> next_entries True k es = es" by auto
        then show ?thesis
        proof
          assume "k \<in> set gs"
          then show ?thesis ..
        next
          assume "next_entries True k es = es"
          from step_keeps_settled [OF ks gs False this] show ?thesis ..
        qed
      qed
    qed
  qed
  from Cons.prems(1) have "\<forall>g\<in>set gs. CHR ''/'' \<notin> set g" by simp
  from Cons.IH [OF this 2 3, of out'] run show ?case by simp
qed

lemma run_settled_same:
  assumes "\<forall>k\<in>set gs. next_entries wr k es = es"
  shows "fst (state_of (forEach gs (step_entries wr) (es, out))) = es"
proof (rule run_invariant [where P = "\<lambda>es'. es' = es"])
  show "es = es" ..
next
  fix g es'
  assume "g \<in> set gs" "es' = es"
  with assms show "next_entries wr g es' = es" by simp
qed

lemma run_entries_twice:
  assumes "list_all valid_name (map fst es)"
  shows "fst (state_of (run_entries wr (fst (state_of (run_entries wr es))))) =
         fst (state_of (run_entries wr es))"
proof (cases wr)
  case False
  then show ?thesis
    by (simp add: run_entries_def run_settled_same next_entries_not_writable)
next
  case True
  let ?es1 = "fst (state_of (forEach (map fst es) (step_entries True) (es, [])))"
  from assms have 1: "\<forall>g\<in>set (map fst es). CHR ''/'' \<notin> set g"
    by (auto simp: list_all_iff valid_name_def)
  have 2: "\<forall>k. map_of es k \<noteq> None \<longrightarrow> CHR ''/'' \<notin> set k"
    using 1 by (auto dest: map_of_in_names)
  have 3: "\<forall>k. map_of es k \<noteq> None \<longrightarrow> k \<in> set (map fst es) \<or> next_entries True k es = es"
    by (auto dest: map_of_in_names)
  from run_settles [OF 1 2 3, of "[]"]
  have "\<forall>k\<in>set (map fst ?es1). next_entries True k ?es1 = ?es1"
    by (simp add: map_of_eq_None_iff)
  then have "fst (state_of (forEach (map fst ?es1) (step_entries True) (?es1, []))) = ?es1"
    by (rule run_settled_same)
  with True show ?thesis by (simp add: run_entries_def)
qed

lemma run_valid_names:
  assumes "list_all valid_name (map fst es)"
  shows "list_all valid_name (map fst (fst (state_of (run_entries wr es))))"
  unfolding run_entries_def
proof (rule run_invariant [where P = "\<lambda>es'. list_all valid_name (map fst es')"])
  show "list_all valid_name (map fst es)" by (rule assms)
next
  fix g and es' :: "(string \<times> node) list"
  assume "g \<in> set (map fst es)" "list_all valid_name (map fst es')"
  with assms show "list_all valid_name (map fst (next_entries wr g es'))"
    by (intro step_valid_names) (auto simp: list_all_iff valid_name_def)
qed

lemma main_world:
  assumes wf: "wf_world w" and sc: "scanned w = Some (Dir r wr es)"
  shows "fst (state_of (main w)) = w\<lparr>scanned := Some (Dir r wr (final_entries w))\<rparr>"
proof (cases r)
  case False
  have "w\<lparr>scanned := Some (Dir r wr es)\<rparr> = w" using sc by (cases w) simp
  with False show ?thesis
    by (simp add: final_entries_run [OF wf sc] main_run [OF wf sc])
next
  case True
  then show ?thesis
    unfolding final_entries_run [OF wf sc] main_run [OF wf sc]
    by (cases "run_entries wr es") (auto simp: with_entries_def split: prod.splits)
qed

lemma main_unreadable:
  assumes "list_all valid_name (script_dir w)"
    and "case scanned w of Some (Dir r wr es) \<Rightarrow> \<not> r | _ \<Rightarrow> True"
  shows "main w = Normal (w, [ErrorMsg ''Error reading directory:''
           (case scanned w of None \<Rightarrow> ENOENT | Some (File c) \<Rightarrow> ENOTDIR | Some (Dir r wr es) \<Rightarrow> EACCES)])"
  using assms
  by (simp add: main_def base_path readdirSync_def resolve_base split: option.splits node.splits)

lemma main_twice:
  assumes wf: "wf_world w"
  shows "fst (state_of (main (fst (state_of (main w))))) = fst (state_of (main w))"
proof (cases "case scanned w of Some (Dir r wr es) \<Rightarrow> \<not> r | _ \<Rightarrow> True")
  case True
  from wf have "list_all valid_name (script_dir w)" by (simp add: wf_world_def)
  from main_unreadable [OF this True] show ?thesis by simp
next
  case False
  then obtain wr es where sc: "scanned w = Some (Dir True wr es)"
    by (auto split: option.splits node.splits)
  let ?es1 = "final_entries w"
  let ?w1 = "w\<lparr>scanned := Some (Dir True wr ?es1)\<rparr>"
  from wf sc have vn: "list_all valid_name (map fst es)" by (simp add: wf_world_def)
  have es1: "?es1 = fst (state_of (run_entries wr es))"
    by (simp add: final_entries_run [OF wf sc])
  have w1: "fst (state_of (main w)) = ?w1" by (rule main_world [OF wf sc])
  have wf1: "wf_world ?w1"
    using wf run_valid_names [OF vn, of wr] by (simp add: wf_world_def es1)
  have sc1: "scanned ?w1 = Some (Dir True wr ?es1)" by simp
  have "final_entries ?w1 = ?es1"
    unfolding final_entries_run [OF wf1 sc1] using run_entries_twice [OF vn, of wr]
    by (simp add: es1)
  with main_world [OF wf1 sc1] w1 show ?thesis by simp
qed

section \<open>The claims\<close>

lemma with_entries_same:
  "scanned w = Some (Dir r wr es) \<Longrightarrow> with_entries w r wr (es, out) = (w, out)"
  by (cases w) (simp add: with_entries_def)

lemma organize_entry_moves:
  assumes wf: "wf_world w" and sc: "scanned w = Some (Dir r True es)"
    and sn: "map_of es f = Some sn" "movable sn"
    and e: "extName f \<noteq> []"
    and d: "map_of es (extName f) = Some (Dir dr dw des)" "can_receive sn f (Dir dr dw des)"
  shows "organize_entry (path_join [dirname w, ''files'']) f (w, out) =
         Normal (w\<lparr>scanned := Some (Dir r True
                   (AList.update (extName f) (Dir dr True (AList.update f sn des)) (AList.delete f es)))\<rparr>,
                 out @ [Log ''folder exists'', Log ''File moved successfully!''])"
proof -
  from wf sc have sd: "list_all valid_name (script_dir w)" and vs: "list_all valid_name (map fst es)"
    by (simp_all add: wf_world_def)
  from sn(1) vs have f: "valid_name f"
    by (auto simp: list_all_iff dest: map_of_in_names)
  from try_move_succeeds [OF sn d]
  have "try_move True es f (extName f) =
      Inr (AList.update (extName f) (Dir dr True (AList.update f sn des)) (AList.delete f es))"
    by simp
  with e d(1) have "step_entries True f (es, out) =
      Normal (AList.update (extName f) (Dir dr True (AList.update f sn des)) (AList.delete f es),
              out @ [Log ''folder exists'', Log ''File moved successfully!''])"
    by (simp add: step_entries_def Let_def)
  with organize_entry_step [OF sd f, of r True es out] show ?thesis
    by (simp add: base_path [OF sd] with_entries_same [OF sc]) (simp add: with_entries_def)
qed


lemma run_all_settled:
  assumes "list_all valid_name (map fst es)"
  shows "\<forall>k\<in>set (map fst (fst (state_of (run_entries True es)))).
           next_entries True k (fst (state_of (run_entries True es))) = fst (state_of (run_entries True es))"
proof -
  from assms have 1: "\<forall>g\<in>set (map fst es). CHR ''/'' \<notin> set g"
    by (auto simp: list_all_iff valid_name_def)
  have 2: "\<forall>k. map_of es k \<noteq> None \<longrightarrow> CHR ''/'' \<notin> set k"
    using 1 by (auto dest: map_of_in_names)
  have 3: "\<forall>k. map_of es k \<noteq> None \<longrightarrow> k \<in> set (map fst es) \<or> next_entries True k es = es"
    by (auto dest: map_of_in_names)
  from run_settles [OF 1 2 3, of "[]"] show ?thesis
    by (simp add: run_entries_def map_of_eq_None_iff)
qed

lemma step_settled_lines:
  assumes "CHR ''/'' \<notin> set g" "next_entries True g es = es" "map_of es g \<noteq> None"
  shows "\<exists>ls. step_entries True g (es, out) = Normal (es, out @ ls) \<and>
           length (filter (\<lambda>l. l = Log ''File moved successfully!'') ls) =
             (if extName g = [] then 1 else 0)"
proof (cases "extName g = []")
  case True
  with assms(3) have "step_entries True g (es, out) =
      Normal (es, out @ [Log ''folder exists'', Log ''File moved successfully!''])"
    by (simp add: step_entries_def)
  with True show ?thesis by simp
next
  case False
  from settled_iff [OF assms(1) False assms(3)] assms(2)
  have ex: "map_of es (extName g) \<noteq> None" and "isl (try_move True es g (extName g))" by simp_all
  then obtain err where "try_move True es g (extName g) = Inl err"
    by (cases "try_move True es g (extName g)") simp_all
  with False ex have "step_entries True g (es, out) =
      Normal (es, out @ [Log ''folder exists'', Error err])"
    by (simp add: step_entries_def Let_def)
  with False show ?thesis by simp
qed

lemma run_settled_lines:
  assumes "\<forall>g\<in>set gs. CHR ''/'' \<notin> set g \<and> next_entries True g es = es \<and> map_of es g \<noteq> None"
  shows "\<exists>ls. forEach gs (step_entries True) (es, out) = Normal (es, out @ ls) \<and>
           length (filter (\<lambda>l. l = Log ''File moved successfully!'') ls) =
             length (filter (\<lambda>g. extName g = []) gs)"
  using assms
proof (induction gs arbitrary: out)
  case Nil
  then show ?case by simp
next
  case (Cons g gs)
  then have g: "CHR ''/'' \<notin> set g" "next_entries True g es = es" "map_of es g \<noteq> None" by simp_all
  from step_settled_lines [OF g, of out] obtain ls where
    ls: "step_entries True g (es, out) = Normal (es, out @ ls)"
    "length (filter (\<lambda>l. l = Log ''File moved successfully!'') ls) = (if extName g = [] then 1 else 0)"
    by blast
  from Cons.prems have "\<forall>g\<in>set gs. CHR ''/'' \<notin> set g \<and> next_entries True g es = es \<and> map_of es g \<noteq> None"
    by simp
  from Cons.IH [OF this, of "out @ ls"] obtain ls' where
    ls': "forEach gs (step_entries True) (es, out @ ls) = Normal (es, (out @ ls) @ ls')"
    "length (filter (\<lambda>l. l = Log ''File moved successfully!'') ls') =
       length (filter (\<lambda>g. extName g = []) gs)"
    by blast
  from ls ls' have "forEach (g # gs) (step_entries True) (es, out) = Normal (es, out @ (ls @ ls'))"
    by simp
  moreover from ls ls' have "length (filter (\<lambda>l. l = Log ''File moved successfully!'') (ls @ ls')) =
       length (filter (\<lambda>g. extName g = []) (g # gs))" by simp
  ultimately show ?case by blast
qed

lemma second_console:
  assumes wf: "wf_world w" and sc: "scanned w = Some (Dir True True es)"
  shows "length (filter (\<lambda>l. l = Log ''File moved successfully!'') (console (fst (state_of (main w))))) =
         length (filter (\<lambda>g. extName g = []) (map fst (final_entries w)))"
proof -
  let ?es1 = "final_entries w"
  let ?w1 = "w\<lparr>scanned := Some (Dir True True ?es1)\<rparr>"
  from wf sc have vn: "list_all valid_name (map fst es)" by (simp add: wf_world_def)
  have es1: "?es1 = fst (state_of (run_entries True es))"
    by (simp add: final_entries_run [OF wf sc])
  have w1: "fst (state_of (main w)) = ?w1" by (rule main_world [OF wf sc])
  have vn1: "list_all valid_name (map fst ?es1)"
    using run_valid_names [OF vn, of True] by (simp add: es1)
  have wf1: "wf_world ?w1" using wf vn1 by (simp add: wf_world_def)
  have sc1: "scanned ?w1 = Some (Dir True True ?es1)" by simp
  have "\<forall>g\<in>set (map fst ?es1). CHR ''/'' \<notin> set g \<and> next_entries True g ?es1 = ?es1 \<and> map_of ?es1 g \<noteq> None"
    using run_all_settled [OF vn] vn1
    by (auto simp: es1 [symmetric] list_all_iff valid_name_def map_of_eq_None_iff)
  from run_settled_lines [OF this, of "[]"] obtain ls where
    ls: "run_entries True ?es1 = Normal (?es1, ls)"
    "length (filter (\<lambda>l. l = Log ''File moved successfully!'') ls) =
       length (filter (\<lambda>g. extName g = []) (map fst ?es1))"
    by (auto simp: run_entries_def)
  have "console ?w1 = ls"
    by (simp add: console_def main_run [OF wf1 sc1] ls(1) with_entries_def)
  with ls(2) w1 show ?thesis by simp
qed


lemma wf_world_valid:
  "wf_world w \<Longrightarrow> scanned w = Some (Dir r wr es) \<Longrightarrow> map_of es f = Some n \<Longrightarrow> valid_name f"
  by (auto simp: wf_world_def list_all_iff dest: map_of_in_names)

lemma organize_entry_no_ext:
  assumes wf: "wf_world w" and sc: "scanned w = Some (Dir r wr es)"
    and n: "map_of es f = Some n" and e: "extName f = []"
  shows "organize_entry (path_join [dirname w, ''files'']) f (w, out) =
         Normal (w, out @ [Log ''folder exists'', Log ''File moved successfully!''])"
proof -
  from wf have sd: "list_all valid_name (script_dir w)" by (simp add: wf_world_def)
  have f: "valid_name f" using wf sc n by (rule wf_world_valid)
  from n e have "step_entries wr f (es, out) =
      Normal (es, out @ [Log ''folder exists'', Log ''File moved successfully!''])"
    by (simp add: step_entries_def)
  with organize_entry_step [OF sd f, of r wr es out] show ?thesis
    by (simp add: base_path [OF sd] with_entries_same [OF sc])
qed

lemma step_entries_failed:
  assumes g: "CHR ''/'' \<notin> set f" and n: "map_of es f = Some n"
    and r: "step_entries wr f (es, out) = Normal (es', out' @ [Error err])"
  shows "map_of es' f = Some n"
proof (cases "extName f = []")
  case True
  with n r have "out @ [Log ''folder exists'', Log ''File moved successfully!''] = out' @ [Error err]"
    by (simp add: step_entries_def)
  then have "(out @ [Log ''folder exists'']) @ [Log ''File moved successfully!''] = out' @ [Error err]"
    by simp
  then show ?thesis by (simp only: append1_eq_conv) simp
next
  case False
  with g have ne: "extName f \<noteq> f" by (rule extName_neq)
  show ?thesis
  proof (cases "map_of es (extName f) = None")
    case ex: False
    show ?thesis
    proof (cases "try_move wr es f (extName f)")
      case (Inl e')
      with False ex r have "es' = es" by (simp add: step_entries_def Let_def)
      with n show ?thesis by simp
    next
      case (Inr es'')
      with False ex r have "(out @ [Log ''folder exists'']) @ [Log ''File moved successfully!''] = out' @ [Error err]"
        by (simp add: step_entries_def Let_def)
      then show ?thesis by (simp only: append1_eq_conv) simp
    qed
  next
    case True
    show ?thesis
    proof (cases wr)
      case wf: False
      with False True r show ?thesis by (simp add: step_entries_def Let_def)
    next
      case wt: True
      show ?thesis
      proof (cases "try_move wr (es @ [(extName f, Dir True True [])]) f (extName f)")
        case (Inl e')
        with False True wt r have "es' = es @ [(extName f, Dir True True [])]"
          by (simp add: step_entries_def Let_def)
        with n ne show ?thesis by simp
      next
        case (Inr es'')
        with False True wt r have "out @ [Log ''File moved successfully!''] = out' @ [Error err]"
          by (simp add: step_entries_def Let_def)
        then show ?thesis by (simp only: append1_eq_conv) simp
      qed
    qed
  qed
qed

lemma organize_entry_failed:
  assumes wf: "wf_world w" and sc: "scanned w = Some (Dir r wr es)"
    and n: "map_of es f = Some n"
    and res: "organize_entry (path_join [dirname w, ''files'']) f (w, out) = Normal (w', out' @ [Error err])"
  shows "\<exists>es'. scanned w' = Some (Dir r wr es') \<and> map_of es' f = Some n"
proof -
  from wf have sd: "list_all valid_name (script_dir w)" by (simp add: wf_world_def)
  have f: "valid_name f" using wf sc n by (rule wf_world_valid)
  then have fs: "CHR ''/'' \<notin> set f" by (simp add: valid_name_def)
  from res organize_entry_step [OF sd f, of r wr es out]
  have m: "map_completion (with_entries w r wr) (step_entries wr f (es, out)) = Normal (w', out' @ [Error err])"
    by (simp add: base_path [OF sd] with_entries_same [OF sc])
  then obtain es' where s: "step_entries wr f (es, out) = Normal (es', out' @ [Error err])"
    and w': "w' = w\<lparr>scanned := Some (Dir r wr es')\<rparr>"
    by (cases "step_entries wr f (es, out)") (auto simp: with_entries_def)
  from step_entries_failed [OF fs n s] w' show ?thesis by simp
qed

text \<open>
  Claim C1, as the code has it. The script makes no collision check. When a regular
  file \<open>f\<close> of the (readable, writable) scanned directory has an extension, the directory
  named after the extension exists and is writable, and that directory already holds a
  regular file named \<open>f\<close>, then \<^verbatim>\<open>renameSync\<close> replaces the file that was there: after
  the run the destination path holds the content of the source file, the entry is no
  longer at its original location, and the callback logs \<^verbatim>\<open>folder exists\<close> and
  \<^verbatim>\<open>File moved successfully!\<close> for it.
\<close>

theorem rename_replaces_destination:
  assumes "wf_world w" and "scanned w = Some (Dir True True es)"
    and "map_of es f = Some (File c)" and "extName f \<noteq> []"
    and "map_of es (extName f) = Some (Dir dr True des)" and "map_of des f = Some (File c')"
  shows "map_of (final_entries w) f = None \<and>
         (\<exists>d'. map_of (final_entries w) (extName f) = Some d' \<and> is_dir d' \<and>
            map_of (entries d') f = Some (File c)) \<and>
         (\<forall>out. organize_entry (path_join [dirname w, ''files'']) f (w, out) =
            Normal (w\<lparr>scanned := Some (Dir True True
                      (AList.update (extName f) (Dir dr True (AList.update f (File c) des))
                        (AList.delete f es)))\<rparr>,
                    out @ [Log ''folder exists'', Log ''File moved successfully!'']))"
proof -
  have mv: "movable (File c)" by (simp add: movable_def)
  have cr: "can_receive (File c) f (Dir dr True des)" using assms(6) by simp
  have "case map_of es (extName f) of None \<Rightarrow> True | Some d \<Rightarrow> can_receive (File c) f d"
    using assms(5) cr by simp
  from final_moves [OF assms(1,2,4,3) mv this]
    organize_entry_moves [OF assms(1,2,3) mv assms(4,5) cr]
  show ?thesis by blast
qed

theorem rename_replaces_destination_witness:
  "wf_world (in_files True [(''b.txt'', File ''new''), (''txt'', Dir True True [(''b.txt'', File ''old'')])]) \<and>
   extName ''b.txt'' = ''txt'' \<and>
   map_of (final_entries (in_files True
     [(''b.txt'', File ''new''), (''txt'', Dir True True [(''b.txt'', File ''old'')])])) ''b.txt'' = None \<and>
   (\<exists>d'. map_of (final_entries (in_files True
     [(''b.txt'', File ''new''), (''txt'', Dir True True [(''b.txt'', File ''old'')])])) ''txt'' = Some d' \<and>
     is_dir d' \<and> map_of (entries d') ''b.txt'' = Some (File ''new''))"
proof -
  let ?es = "[(''b.txt'', File ''new''), (''txt'', Dir True True [(''b.txt'', File ''old'')])]"
  have wf: "wf_world (in_files True ?es)"
    by (simp add: wf_world_def in_files_def valid_name_def)
  have sc: "scanned (in_files True ?es) = Some (Dir True True ?es)"
    by (simp add: in_files_def)
  have e: "extName ''b.txt'' = ''txt''" by code_simp
  have 1: "map_of ?es ''b.txt'' = Some (File ''new'')" by simp
  have 2: "extName ''b.txt'' \<noteq> []" by (simp add: e)
  have 3: "map_of ?es (extName ''b.txt'') = Some (Dir True True [(''b.txt'', File ''old'')])"
    by (simp add: e)
  have 4: "map_of [(''b.txt'', File ''old'')] ''b.txt'' = Some (File ''old'')" by simp
  from rename_replaces_destination [OF wf sc 1 2 3 4] wf e show ?thesis by simp
qed

theorem collision_overwrites_counterexample:
  "main (in_files True [(''b.txt'', File ''new''), (''txt'', Dir True True [(''b.txt'', File ''old'')])]) =
   Normal (in_files True [(''txt'', Dir True True [(''b.txt'', File ''new'')])],
           [Log ''folder exists'', Log ''File moved successfully!'',
            Log ''folder exists'', Log ''File moved successfully!''])"
  by code_simp

text \<open>
  Claim C2. Every entry seen at scan time is still there after the run: under its name,
  either at its original location in the scanned directory or at its destination
  location in the directory named after its extension, there is a node of the same kind
  (for a regular file: with the same content). No entry is deleted. And when the move
  of an entry fails, so that the callback logs an error for it, the entry is still at its
  original location, as it was.
\<close>

theorem no_entry_lost:
  assumes wf: "wf_world w" and sc: "scanned w = Some (Dir r wr es)"
    and f: "map_of es f = Some n"
  shows "(\<exists>n'. located f (final_entries w) = Some n' \<and> same_kind n n') \<and>
         (\<forall>out w' out' err.
            organize_entry (path_join [dirname w, ''files'']) f (w, out) =
              Normal (w', out' @ [Error err]) \<longrightarrow>
            (\<exists>es'. scanned w' = Some (Dir r wr es') \<and> map_of es' f = Some n))"
proof -
  from f have fin: "f \<in> fst ` set es" by (rule map_of_SomeD [THEN imageI, of _ _ _ fst, simplified])
  have fs: "CHR ''/'' \<notin> set f" using wf sc fin by (rule wf_world_names)
  let ?P = "\<lambda>es'. \<exists>n'. located f es' = Some n' \<and> same_kind n n'"
  have "?P (final_entries w)"
  proof (rule final_invariant [OF wf sc _ _ refl])
    from f show "?P es" by (auto simp: located_def)
  next
    fix g es'
    assume g: "g \<in> fst ` set es" and "?P es'"
    then obtain n' where n': "located f es' = Some n'" "same_kind n n'" by blast
    have "CHR ''/'' \<notin> set g" using wf sc g by (rule wf_world_names)
    from step_located [OF fs this n'(1), of wr] n'(2)
    show "?P (next_entries wr g es')" by (blast intro: same_kind_trans)
  qed
  moreover have "\<exists>es'. scanned w' = Some (Dir r wr es') \<and> map_of es' f = Some n"
    if "organize_entry (path_join [dirname w, ''files'']) f (w, out) = Normal (w', out' @ [Error err])"
    for out w' out' err
    using wf sc f that by (rule organize_entry_failed)
  ultimately show ?thesis by blast
qed


theorem no_entry_lost_witness:
  "wf_world (in_files True [(''a.txt'', File ''1''), (''txt'', File ''2'')]) \<and>
   map_of [(''a.txt'', File ''1''), (''txt'', File ''2'')] ''a.txt'' = Some (File ''1'') \<and>
   (\<exists>n'. located ''a.txt'' (final_entries (in_files True [(''a.txt'', File ''1''), (''txt'', File ''2'')]))
           = Some n' \<and> same_kind (File ''1'') n') \<and>
   main (in_files True [(''a.txt'', File ''1''), (''txt'', File ''2'')]) =
     Normal (in_files True [(''a.txt'', File ''1''), (''txt'', File ''2'')],
             [Log ''folder exists'', Error ENOTDIR, Log ''folder exists'', Log ''File moved successfully!''])"
proof -
  let ?es = "[(''a.txt'', File ''1''), (''txt'', File ''2'')]"
  have wf: "wf_world (in_files True ?es)"
    by (simp add: wf_world_def in_files_def valid_name_def)
  have sc: "scanned (in_files True ?es) = Some (Dir True True ?es)"
    by (simp add: in_files_def)
  have 1: "map_of ?es ''a.txt'' = Some (File ''1'')" by simp
  have run: "main (in_files True ?es) =
     Normal (in_files True ?es,
             [Log ''folder exists'', Error ENOTDIR, Log ''folder exists'', Log ''File moved successfully!''])"
    by code_simp
  from no_entry_lost [OF wf sc 1, THEN conjunct1] wf run show ?thesis by simp
qed
text \<open>
  Claim C3, as the code has it. Classification is case-sensitive: the category key is
  the extension exactly as it is written in the name, without the leading dot, and is
  never converted to lower case. A regular file \<^verbatim>\<open>stem.ext\<close> of a readable, writable
  scanned directory that has no entry named \<^verbatim>\<open>ext\<close> yet ends up in the directory named
  \<^verbatim>\<open>ext\<close>, spelled as in the file name. So \<^verbatim>\<open>a.TXT\<close>, \<^verbatim>\<open>b.txt\<close> and \<^verbatim>\<open>c.Txt\<close> classify
  to \<^verbatim>\<open>TXT\<close>, \<^verbatim>\<open>txt\<close> and \<^verbatim>\<open>Txt\<close> and go to three different directories.
\<close>

theorem extension_keeps_its_case:
  assumes "wf_world w" and "scanned w = Some (Dir True True es)"
    and "stem \<noteq> []" and "CHR ''.'' \<notin> set ext" and "ext \<noteq> []"
    and "map_of es (stem @ CHR ''.'' # ext) = Some (File c)" and "map_of es ext = None"
  shows "extName (stem @ CHR ''.'' # ext) = ext \<and>
         map_of (final_entries w) (stem @ CHR ''.'' # ext) = None \<and>
         (\<exists>d'. map_of (final_entries w) ext = Some d' \<and> is_dir d' \<and>
            map_of (entries d') (stem @ CHR ''.'' # ext) = Some (File c))"
proof -
  let ?f = "stem @ CHR ''.'' # ext"
  from assms(6) have "?f \<in> fst ` set es" by (rule map_of_in_names)
  with assms(1,2) have "CHR ''/'' \<notin> set ?f" by (rule wf_world_names)
  then have "CHR ''/'' \<notin> set stem" "CHR ''/'' \<notin> set ext" by simp_all
  from extName_last_dot [OF this assms(4)] assms(3) have e: "extName ?f = ext" by simp
  have mv: "movable (File c)" by (simp add: movable_def)
  have "case map_of es (extName ?f) of None \<Rightarrow> True | Some d \<Rightarrow> can_receive (File c) ?f d"
    using assms(7) e by simp
  from final_moves [OF assms(1,2) _ assms(6) mv this] e assms(5) show ?thesis by simp
qed

theorem extension_keeps_its_case_witness:
  "wf_world (in_files True [(''a.TXT'', File ''1''), (''b.txt'', File ''2''), (''c.Txt'', File ''3'')]) \<and>
   extName ''a.TXT'' = ''TXT'' \<and>
   (\<exists>d'. map_of (final_entries (in_files True
       [(''a.TXT'', File ''1''), (''b.txt'', File ''2''), (''c.Txt'', File ''3'')])) ''TXT'' = Some d' \<and>
     is_dir d' \<and> map_of (entries d') ''a.TXT'' = Some (File ''1''))"
proof -
  let ?es = "[(''a.TXT'', File ''1''), (''b.txt'', File ''2''), (''c.Txt'', File ''3'')]"
  have wf: "wf_world (in_files True ?es)"
    by (simp add: wf_world_def in_files_def valid_name_def)
  have sc: "scanned (in_files True ?es) = Some (Dir True True ?es)"
    by (simp add: in_files_def)
  have 1: "''a'' \<noteq> []" "CHR ''.'' \<notin> set ''TXT''" "''TXT'' \<noteq> []" by simp_all
  have 2: "map_of ?es (''a'' @ CHR ''.'' # ''TXT'') = Some (File ''1'')" by simp
  have 3: "map_of ?es ''TXT'' = None" by simp
  from extension_keeps_its_case [OF wf sc 1 2 3] wf show ?thesis by simp
qed

theorem lowercase_category_counterexample:
  "extName ''a.TXT'' = ''TXT'' \<and> extName ''a.TXT'' \<noteq> ''txt'' \<and> extName ''c.Txt'' = ''Txt'' \<and>
   main (in_files True [(''a.TXT'', File ''1''), (''b.txt'', File ''2''), (''c.Txt'', File ''3'')]) =
   Normal (in_files True
             [(''TXT'', Dir True True [(''a.TXT'', File ''1'')]),
              (''txt'', Dir True True [(''b.txt'', File ''2'')]),
              (''Txt'', Dir True True [(''c.Txt'', File ''3'')])],
           [Log ''File moved successfully!'', Log ''File moved successfully!'',
            Log ''File moved successfully!''])"
  by code_simp

text \<open>
  Claim C4, as the code has it. There is no sentinel category. A name without an
  extension classifies to the empty category; \<^verbatim>\<open>path.join\<close> drops the empty segment, so
  the destination directory is the scanned directory itself and the entry is renamed
  onto itself. A regular file without an extension is therefore still in the scanned
  directory, with its content, after the run.
\<close>

theorem file_without_extension_stays:
  assumes "wf_world w" and "scanned w = Some (Dir r wr es)"
    and "map_of es f = Some (File c)" and "extName f = []"
  shows "map_of (final_entries w) f = Some (File c) \<and>
         path_join [path_join [dirname w, ''files''], extName f] = path_join [dirname w, ''files''] \<and>
         path_join [path_join [path_join [dirname w, ''files''], extName f], f] =
           path_join [path_join [dirname w, ''files''], f]"
proof -
  from assms(1) have sd: "list_all valid_name (script_dir w)" by (simp add: wf_world_def)
  have "map_of (final_entries w) f = Some (File c)"
  proof (rule final_invariant [OF assms(1,2) _ _ refl, where P = "\<lambda>es'. map_of es' f = Some (File c)"])
    show "map_of es f = Some (File c)" by (rule assms(3))
  next
    fix g es'
    assume "map_of es' f = Some (File c)"
    from step_keeps [OF assms(4) this, of wr g]
    show "map_of (next_entries wr g es') f = Some (File c)"
      by (metis same_kind.simps(1,3) node.exhaust)
  qed
  then show ?thesis
    using assms(4) by (simp add: base_path [OF sd] path_join_base_empty [OF sd])
qed

theorem file_without_extension_stays_witness:
  "wf_world (in_files True [(''README'', File ''read me'')]) \<and> extName ''README'' = [] \<and>
   map_of (final_entries (in_files True [(''README'', File ''read me'')])) ''README'' = Some (File ''read me'')"
proof -
  let ?es = "[(''README'', File ''read me'')]"
  have wf: "wf_world (in_files True ?es)"
    by (simp add: wf_world_def in_files_def valid_name_def)
  have sc: "scanned (in_files True ?es) = Some (Dir True True ?es)"
    by (simp add: in_files_def)
  have e: "extName ''README'' = []" by code_simp
  have 1: "map_of ?es ''README'' = Some (File ''read me'')" by simp
  from file_without_extension_stays [OF wf sc 1 e] wf e show ?thesis by simp
qed

theorem noext_bucket_counterexample:
  "extName ''README'' = [] \<and> extName ''README'' \<noteq> ''_noext'' \<and>
   main (in_files True [(''README'', File ''read me'')]) =
   Normal (in_files True [(''README'', File ''read me'')],
           [Log ''folder exists'', Log ''File moved successfully!''])"
  by code_simp


text \<open>
  Claim C5, as the code has it. The script never asks whether an entry is a directory:
  a directory entry is classified by its name and handled like every other entry, and
  nothing is recorded as skipped. A directory whose name has no extension (such as
  \<^verbatim>\<open>images\<close>) is renamed onto itself: after the run it is still a directory at its
  original location, with the same permissions, and it is exactly as before when no
  scanned entry has its name as extension; the callback logs \<^verbatim>\<open>folder exists\<close> and
  \<^verbatim>\<open>File moved successfully!\<close> for it. A writable directory whose name has an
  extension (such as \<^verbatim>\<open>my.photos\<close>) is moved, with its content, into the directory named
  after that extension, when the scanned directory is readable and writable and has no
  entry of that name yet.
\<close>

theorem directory_entries_like_files:
  assumes "wf_world w" and "scanned w = Some (Dir r wr es)"
    and "map_of es f = Some (Dir dr dw des)"
  shows "(extName f = [] \<longrightarrow>
            (\<exists>des'. map_of (final_entries w) f = Some (Dir dr dw des')) \<and>
            ((\<forall>g\<in>fst ` set es. extName g \<noteq> f) \<longrightarrow> map_of (final_entries w) f = Some (Dir dr dw des)) \<and>
            (\<forall>out. organize_entry (path_join [dirname w, ''files'']) f (w, out) =
               Normal (w, out @ [Log ''folder exists'', Log ''File moved successfully!'']))) \<and>
         (extName f \<noteq> [] \<and> r \<and> wr \<and> dw \<and> map_of es (extName f) = None \<longrightarrow>
            map_of (final_entries w) f = None \<and>
            (\<exists>d'. map_of (final_entries w) (extName f) = Some d' \<and> is_dir d' \<and>
               map_of (entries d') f = Some (Dir dr dw des)))"
proof (intro conjI impI)
  assume e: "extName f = []"
  show "\<exists>des'. map_of (final_entries w) f = Some (Dir dr dw des')"
  proof (rule final_invariant [OF assms(1,2) _ _ refl,
        where P = "\<lambda>es'. \<exists>des'. map_of es' f = Some (Dir dr dw des')"])
    show "\<exists>des'. map_of es f = Some (Dir dr dw des')" using assms(3) by simp
  next
    fix g es'
    assume "\<exists>des'. map_of es' f = Some (Dir dr dw des')"
    then obtain des' where "map_of es' f = Some (Dir dr dw des')" ..
    from step_keeps [OF e this, of wr g] obtain d' where
      d': "map_of (next_entries wr g es') f = Some d'" "same_kind (Dir dr dw des') d'" by blast
    then show "\<exists>des'. map_of (next_entries wr g es') f = Some (Dir dr dw des')"
      by (cases d') simp_all
  qed
next
  assume e: "extName f = []" and no: "\<forall>g\<in>fst ` set es. extName g \<noteq> f"
  show "map_of (final_entries w) f = Some (Dir dr dw des)"
  proof (rule final_invariant [OF assms(1,2) _ _ refl,
        where P = "\<lambda>es'. map_of es' f = Some (Dir dr dw des)"])
    show "map_of es f = Some (Dir dr dw des)" by (rule assms(3))
  next
    fix g es'
    assume g: "g \<in> fst ` set es" and "map_of es' f = Some (Dir dr dw des)"
    from step_keeps [OF e this(2), of wr g] g no
    show "map_of (next_entries wr g es') f = Some (Dir dr dw des)" by auto
  qed
next
  assume e: "extName f = []"
  show "\<forall>out. organize_entry (path_join [dirname w, ''files'']) f (w, out) =
               Normal (w, out @ [Log ''folder exists'', Log ''File moved successfully!''])"
    using organize_entry_no_ext [OF assms e] by blast
next
  assume a: "extName f \<noteq> [] \<and> r \<and> wr \<and> dw \<and> map_of es (extName f) = None"
  then have sc: "scanned w = Some (Dir True True es)" using assms(2) by simp
  have mv: "movable (Dir dr dw des)" using a by (simp add: movable_def)
  have "case map_of es (extName f) of None \<Rightarrow> True | Some d \<Rightarrow> can_receive (Dir dr dw des) f d"
    using a by simp
  from final_moves [OF assms(1) sc _ assms(3) mv this] a
  show "map_of (final_entries w) f = None"
    and "\<exists>d'. map_of (final_entries w) (extName f) = Some d' \<and> is_dir d' \<and>
               map_of (entries d') f = Some (Dir dr dw des)"
    by simp_all
qed

theorem directory_entries_like_files_witness:
  "wf_world (in_files True [(''images'', Dir True True [(''x.png'', File ''1'')]),
                            (''my.photos'', Dir True True [(''y.png'', File ''2'')])]) \<and>
   extName ''images'' = [] \<and> extName ''my.photos'' = ''photos'' \<and>
   map_of (final_entries (in_files True [(''images'', Dir True True [(''x.png'', File ''1'')]),
                            (''my.photos'', Dir True True [(''y.png'', File ''2'')])])) ''images''
     = Some (Dir True True [(''x.png'', File ''1'')]) \<and>
   map_of (final_entries (in_files True [(''images'', Dir True True [(''x.png'', File ''1'')]),
                            (''my.photos'', Dir True True [(''y.png'', File ''2'')])])) ''my.photos'' = None \<and>
   (\<exists>d'. map_of (final_entries (in_files True [(''images'', Dir True True [(''x.png'', File ''1'')]),
                            (''my.photos'', Dir True True [(''y.png'', File ''2'')])])) ''photos'' = Some d' \<and>
      is_dir d' \<and> map_of (entries d') ''my.photos'' = Some (Dir True True [(''y.png'', File ''2'')]))"
proof -
  let ?es = "[(''images'', Dir True True [(''x.png'', File ''1'')]),
              (''my.photos'', Dir True True [(''y.png'', File ''2'')])]"
  have wf: "wf_world (in_files True ?es)"
    by (simp add: wf_world_def in_files_def valid_name_def)
  have sc: "scanned (in_files True ?es) = Some (Dir True True ?es)"
    by (simp add: in_files_def)
  have e: "extName ''images'' = []" "extName ''my.photos'' = ''photos''" by code_simp+
  have 1: "map_of ?es ''images'' = Some (Dir True True [(''x.png'', File ''1'')])" by simp
  have 2: "map_of ?es ''my.photos'' = Some (Dir True True [(''y.png'', File ''2'')])" by simp
  from directory_entries_like_files [OF wf sc 1] directory_entries_like_files [OF wf sc 2] wf e
  show ?thesis by simp
qed

theorem directory_moved_counterexample:
  "main (in_files True [(''images'', Dir True True [(''x.png'', File ''1'')]),
                        (''my.photos'', Dir True True [(''y.png'', File ''2'')])]) =
   Normal (in_files True
             [(''images'', Dir True True [(''x.png'', File ''1'')]),
              (''photos'', Dir True True [(''my.photos'', Dir True True [(''y.png'', File ''2'')])])],
           [Log ''folder exists'', Log ''File moved successfully!'', Log ''File moved successfully!''])"
  by code_simp

text \<open>
  Claim C6, as the code has it. A second run changes nothing in the file system: for
  every well-formed starting state, the world after two runs in succession is the world
  after one. The script only scans the top level, so entries already inside their
  extension directory are not looked at, and there is no skipped outcome. What the second
  run finds at the top level it handles as usual: in a readable, writable scanned
  directory it logs \<^verbatim>\<open>File moved successfully!\<close> once for every top-level entry without
  an extension (the extension directories among them), each renamed onto itself.
\<close>

theorem second_run_changes_nothing:
  assumes "wf_world w"
  shows "fst (state_of (main (fst (state_of (main w))))) = fst (state_of (main w)) \<and>
         (\<forall>es. scanned w = Some (Dir True True es) \<longrightarrow>
            length (filter (\<lambda>l. l = Log ''File moved successfully!'')
                      (console (fst (state_of (main w))))) =
            length (filter (\<lambda>g. extName g = []) (map fst (final_entries w))))"
  using main_twice [OF assms] second_console [OF assms] by blast

theorem second_run_changes_nothing_witness:
  "wf_world (in_files True [(''a.txt'', File ''1''), (''notes'', File ''2'')]) \<and>
   fst (state_of (main (in_files True [(''a.txt'', File ''1''), (''notes'', File ''2'')]))) =
     in_files True [(''notes'', File ''2''), (''txt'', Dir True True [(''a.txt'', File ''1'')])] \<and>
   fst (state_of (main (in_files True [(''notes'', File ''2''), (''txt'', Dir True True [(''a.txt'', File ''1'')])]))) =
     in_files True [(''notes'', File ''2''), (''txt'', Dir True True [(''a.txt'', File ''1'')])] \<and>
   length (filter (\<lambda>l. l = Log ''File moved successfully!'')
     (console (in_files True [(''notes'', File ''2''), (''txt'', Dir True True [(''a.txt'', File ''1'')])]))) = 2"
proof -
  let ?es = "[(''a.txt'', File ''1''), (''notes'', File ''2'')]"
  let ?es1 = "[(''notes'', File ''2''), (''txt'', Dir True True [(''a.txt'', File ''1'')])]"
  have wf: "wf_world (in_files True ?es)"
    by (simp add: wf_world_def in_files_def valid_name_def)
  have sc: "scanned (in_files True ?es) = Some (Dir True True ?es)"
    by (simp add: in_files_def)
  have run: "main (in_files True ?es) =
      Normal (in_files True ?es1, [Log ''File moved successfully!'', Log ''folder exists'',
        Log ''File moved successfully!''])"
    by code_simp
  have fin: "final_entries (in_files True ?es) = ?es1"
    by (simp add: final_entries_def run) (simp add: in_files_def)
  have e: "extName ''notes'' = []" "extName ''txt'' = []" by code_simp+
  from second_run_changes_nothing [OF wf] sc wf show ?thesis
    by (simp add: run fin e)
qed

theorem second_run_reports_moves_counterexample:
  "main (in_files True [(''a.txt'', File ''1'')]) =
     Normal (in_files True [(''txt'', Dir True True [(''a.txt'', File ''1'')])],
             [Log ''File moved successfully!'']) \<and>
   main (in_files True [(''txt'', Dir True True [(''a.txt'', File ''1'')])]) =
     Normal (in_files True [(''txt'', Dir True True [(''a.txt'', File ''1'')])],
             [Log ''folder exists'', Log ''File moved successfully!''])"
  by code_simp


text \<open>
  Claim C7, where the code falls short of it. \<^verbatim>\<open>renameSync\<close> stands inside a
  \<^verbatim>\<open>try\<close>/\<^verbatim>\<open>catch\<close> of its own in both branches, so a failed move is logged for its entry
  and the loop goes on. \<^verbatim>\<open>mkdirSync\<close> stands before that \<^verbatim>\<open>try\<close>: when it throws, the
  exception leaves \<^verbatim>\<open>forEach\<close> and reaches the outer \<^verbatim>\<open>catch\<close>, which reports it as
  \<^verbatim>\<open>Error reading directory:\<close>; the entries after it are never handled. Here the scanned
  directory is readable but not writable and lists, in the sorted order of
  \<^verbatim>\<open>readdirSync\<close>, \<^verbatim>\<open>a.txt\<close>, \<^verbatim>\<open>b.jpg\<close>, \<^verbatim>\<open>c.txt\<close> and the directory \<^verbatim>\<open>txt\<close>. The move
  of \<^verbatim>\<open>a.txt\<close> into \<^verbatim>\<open>txt\<close> fails and is logged for that entry; then creating \<^verbatim>\<open>jpg\<close> for
  \<^verbatim>\<open>b.jpg\<close> fails and ends the batch: \<^verbatim>\<open>c.txt\<close> and \<^verbatim>\<open>txt\<close> get no line at all.
\<close>

theorem mkdir_failure_aborts_batch:
  "main (in_files False [(''a.txt'', File ''1''), (''b.jpg'', File ''2''),
                         (''c.txt'', File ''3''), (''txt'', Dir True True [])]) =
   Normal (in_files False [(''a.txt'', File ''1''), (''b.jpg'', File ''2''),
                           (''c.txt'', File ''3''), (''txt'', Dir True True [])],
           [Log ''folder exists'', Error EACCES,
            ErrorMsg ''Error reading directory:'' EACCES])"
  by code_simp

text \<open>
  Claim C8, as the code has it. When \<^verbatim>\<open>__dirname/files\<close> does not exist, is not a
  directory or cannot be read, \<^verbatim>\<open>readdirSync\<close> throws, no entry is handled and the file
  system is left as it was. The error is not propagated: the outer \<^verbatim>\<open>catch\<close> takes it,
  the script writes the single line \<^verbatim>\<open>Error reading directory:\<close> with the error to the
  console and ends normally.
\<close>

theorem read_failure_is_logged:
  assumes "list_all valid_name (script_dir w)"
    and "case scanned w of None \<Rightarrow> True | Some (File c) \<Rightarrow> True | Some (Dir r wr es) \<Rightarrow> \<not> r"
  shows "main w = Normal (w, [ErrorMsg ''Error reading directory:''
           (case scanned w of None \<Rightarrow> ENOENT | Some (File c) \<Rightarrow> ENOTDIR | Some (Dir r wr es) \<Rightarrow> EACCES)])"
  using assms
  by (simp add: main_def base_path readdirSync_def resolve_base split: option.splits node.splits)

theorem read_failure_is_logged_witness:
  "list_all valid_name [''exercises'', ''clear_the_clutter''] \<and>
   main \<lparr>script_dir = [''exercises'', ''clear_the_clutter''], scanned = Some (File ''not a directory'')\<rparr> =
   Normal (\<lparr>script_dir = [''exercises'', ''clear_the_clutter''], scanned = Some (File ''not a directory'')\<rparr>,
           [ErrorMsg ''Error reading directory:'' ENOTDIR])"
  using read_failure_is_logged
    [of "\<lparr>script_dir = [''exercises'', ''clear_the_clutter''], scanned = Some (File ''not a directory'')\<rparr>"]
  by (simp add: valid_name_def)

theorem missing_directory_counterexample:
  "main \<lparr>script_dir = [''exercises'', ''clear_the_clutter''], scanned = None\<rparr> =
     Normal (\<lparr>script_dir = [''exercises'', ''clear_the_clutter''], scanned = None\<rparr>,
             [ErrorMsg ''Error reading directory:'' ENOENT]) \<and>
   main \<lparr>script_dir = [''exercises'', ''clear_the_clutter''], scanned = None\<rparr> \<noteq>
     Throw ENOENT (\<lparr>script_dir = [''exercises'', ''clear_the_clutter''], scanned = None\<rparr>, [])"
  by code_simp


subsection \<open>The journal of the calls\<close>

lemma organize_entry_untraced:
  "map_completion untraced (organize_entry_traced B f ((w, j), out)) = organize_entry B f (w, out)"
  by (simp add: organize_entry_traced_def organize_entry_def existsSync_traced_def
      mkdirSync_traced_def renameSync_traced_def untraced_def Let_def split: sum.splits)

lemma organize_entry_traced_calls:
  "calls_of (organize_entry_traced B f ((w, j), out)) =
     j @ ExistsSync (path_join [B, extName f]) #
       (if existsSync w (path_join [B, extName f])
        then [RenameSync (path_join [B, f]) (path_join [path_join [B, extName f], f])]
        else (case mkdirSync w (path_join [B, extName f]) of
                Inl err \<Rightarrow> [MkdirSync (path_join [B, extName f])]
              | Inr w1 \<Rightarrow> [MkdirSync (path_join [B, extName f]),
                           RenameSync (path_join [B, f]) (path_join [path_join [B, extName f], f])]))"
  by (simp add: organize_entry_traced_def existsSync_traced_def calls_of_def
      mkdirSync_traced_def renameSync_traced_def Let_def split: sum.splits)

lemma forEach_untraced:
  "map_completion untraced (forEach fs (organize_entry_traced B) ((w, j), out)) =
   forEach fs (organize_entry B) (w, out)"
proof (induction fs arbitrary: w j out)
  case Nil
  show ?case by (simp add: untraced_def)
next
  case (Cons f fs)
  show ?case
  proof (cases "organize_entry_traced B f ((w, j), out)")
    case (Normal x)
    obtain w' j' out' where x: "x = ((w', j'), out')" by (cases x) auto
    from organize_entry_untraced [of B f w j out] Normal x
    have "organize_entry B f (w, out) = Normal (w', out')" by (simp add: untraced_def)
    with Normal x Cons.IH [of w' j' out'] show ?thesis by simp
  next
    case (Throw err x)
    from organize_entry_untraced [of B f w j out] Throw
    have "organize_entry B f (w, out) = Throw err (untraced x)" by simp
    with Throw show ?thesis by simp
  qed
qed

lemma main_untraced: "map_completion untraced (main_traced (w, j)) = main w"
proof (cases "readdirSync w (path_join [dirname w, ''files''])")
  case (Inl err)
  then show ?thesis
    by (simp add: main_traced_def main_def readdirSync_traced_def untraced_def)
next
  case (Inr files)
  let ?B = "path_join [dirname w, ''files'']"
  let ?j = "j @ [ReaddirSync ?B]"
  from forEach_untraced [of files ?B w ?j "[]"]
  show ?thesis
    using Inr
    by (cases "forEach files (organize_entry_traced ?B) ((w, ?j), [])";
        cases "forEach files (organize_entry ?B) (w, [])")
      (auto simp: main_traced_def main_def readdirSync_traced_def untraced_def)
qed

lemma resolve_cong: "script_dir w' = script_dir w \<Longrightarrow> resolve w' p = resolve w p"
  by (simp add: resolve_def dirname_def)

lemma call_inside_cong: "script_dir w' = script_dir w \<Longrightarrow> call_inside w' c = call_inside w c"
proof -
  assume "script_dir w' = script_dir w"
  then have "\<And>p. resolve w' p = resolve w p" by (rule resolve_cong)
  then show ?thesis by (cases c) (simp_all cong: option.case_cong)
qed

lemma mkdirSync_keeps:
  "mkdirSync w p = Inr w' \<Longrightarrow> script_dir w' = script_dir w \<and> scanned w' \<noteq> None"
  by (auto simp: mkdirSync_def split: option.splits sum.splits)

lemma renameSync_keeps:
  "renameSync w p q = Inr w' \<Longrightarrow> script_dir w' = script_dir w \<and> scanned w' \<noteq> None"
  by (auto simp: renameSync_def split: option.splits sum.splits prod.splits)

lemma organize_entry_keeps:
  assumes "scanned w \<noteq> None"
  shows "script_dir (fst (state_of (organize_entry B f (w, out)))) = script_dir w \<and>
         scanned (fst (state_of (organize_entry B f (w, out)))) \<noteq> None"
proof (cases "existsSync w (path_join [B, extName f])")
  case True
  show ?thesis
  proof (cases "renameSync w (path_join [B, f]) (path_join [path_join [B, extName f], f])")
    case (Inl err)
    with True assms show ?thesis by (simp add: organize_entry_def Let_def)
  next
    case (Inr w')
    with True renameSync_keeps [OF Inr] show ?thesis by (simp add: organize_entry_def Let_def)
  qed
next
  case False
  show ?thesis
  proof (cases "mkdirSync w (path_join [B, extName f])")
    case (Inl err)
    with False assms show ?thesis by (simp add: organize_entry_def Let_def)
  next
    case (Inr w1)
    note mk = mkdirSync_keeps [OF Inr]
    show ?thesis
    proof (cases "renameSync w1 (path_join [B, f]) (path_join [path_join [B, extName f], f])")
      case (Inl err)
      with False Inr mk show ?thesis by (simp add: organize_entry_def Let_def)
    next
      case (Inr w')
      with False \<open>mkdirSync w (path_join [B, extName f]) = Inr w1\<close> mk renameSync_keeps [OF Inr]
      show ?thesis by (simp add: organize_entry_def Let_def)
    qed
  qed
qed


lemma entry_calls_literal:
  assumes sd: "list_all valid_name (script_dir w)" and f: "valid_name f" and sc: "scanned w \<noteq> None"
  shows "calls_of (organize_entry_traced (path_join [dirname w, ''files'']) f ((w, j), out)) =
     j @ (if extName f = [] then
            [ExistsSync (path_join [dirname w, ''files'']),
             RenameSync (path_join [dirname w, ''files''] @ ''/'' @ f)
                        (path_join [dirname w, ''files''] @ ''/'' @ f)]
          else if existsSync w (path_join [dirname w, ''files''] @ ''/'' @ extName f) then
            [ExistsSync (path_join [dirname w, ''files''] @ ''/'' @ extName f),
             RenameSync (path_join [dirname w, ''files''] @ ''/'' @ f)
                        (path_join [dirname w, ''files''] @ ''/'' @ extName f @ ''/'' @ f)]
          else
            (case mkdirSync w (path_join [dirname w, ''files''] @ ''/'' @ extName f) of
               Inl err \<Rightarrow>
                 [ExistsSync (path_join [dirname w, ''files''] @ ''/'' @ extName f),
                  MkdirSync (path_join [dirname w, ''files''] @ ''/'' @ extName f)]
             | Inr w1 \<Rightarrow>
                 [ExistsSync (path_join [dirname w, ''files''] @ ''/'' @ extName f),
                  MkdirSync (path_join [dirname w, ''files''] @ ''/'' @ extName f),
                  RenameSync (path_join [dirname w, ''files''] @ ''/'' @ f)
                             (path_join [dirname w, ''files''] @ ''/'' @ extName f @ ''/'' @ f)]))"
proof -
  let ?B = "path_join [dirname w, ''files'']"
  have B: "?B = slash_path (script_dir w @ [''files''])" by (rule base_path [OF sd])
  from f have fs: "CHR ''/'' \<notin> set f" by (simp add: valid_name_def)
  have c: "slash_path (script_dir w @ [''files'', x]) = ?B @ ''/'' @ x" for x
    by (simp add: B slash_path_def)
  have gc: "slash_path (script_dir w @ [''files'', x, y]) = ?B @ ''/'' @ x @ ''/'' @ y" for x y
    by (simp add: B slash_path_def)
  have src: "path_join [?B, f] = ?B @ ''/'' @ f"
    using path_join_child [OF sd f] by (simp only: B [symmetric] c)
  show ?thesis
  proof (cases "extName f = []")
    case True
    have dir: "path_join [?B, extName f] = ?B"
      using path_join_base_empty [OF sd] by (simp only: True B [symmetric])
    from sc obtain t where "scanned w = Some t" by auto
    from existsSync_base [OF sd this] have ex: "existsSync w ?B" by (simp only: B [symmetric])
    show ?thesis
      unfolding organize_entry_traced_calls dir src using True ex by simp
  next
    case False
    from False fs have ev: "valid_name (extName f)" by (simp add: extName_valid)
    have dir: "path_join [?B, extName f] = ?B @ ''/'' @ extName f"
      using path_join_child [OF sd ev] by (simp only: B [symmetric] c)
    have dst: "path_join [?B @ ''/'' @ extName f, f] = ?B @ ''/'' @ extName f @ ''/'' @ f"
      using path_join_grandchild [OF sd ev f] by (simp only: c gc)
    show ?thesis
      unfolding organize_entry_traced_calls dir src dst using False
      by (simp split: sum.splits)
  qed
qed

lemma resolve_literal:
  assumes sd: "list_all valid_name (script_dir w)"
  shows "resolve w (path_join [dirname w, ''files'']) = Some []"
    and "CHR ''/'' \<notin> set x \<Longrightarrow> resolve w (path_join [dirname w, ''files''] @ CHR ''/'' # x) = Some [x]"
    and "CHR ''/'' \<notin> set x \<Longrightarrow> CHR ''/'' \<notin> set y \<Longrightarrow>
         resolve w (path_join [dirname w, ''files''] @ CHR ''/'' # x @ CHR ''/'' # y) = Some [x, y]"
proof -
  have B: "path_join [dirname w, ''files''] = slash_path (script_dir w @ [''files''])"
    by (rule base_path [OF sd])
  show "resolve w (path_join [dirname w, ''files'']) = Some []"
    unfolding B by (rule resolve_base [OF sd])
  show "resolve w (path_join [dirname w, ''files''] @ CHR ''/'' # x) = Some [x]" if "CHR ''/'' \<notin> set x"
    using resolve_child [OF sd that] by (simp add: B slash_path_def)
  show "resolve w (path_join [dirname w, ''files''] @ CHR ''/'' # x @ CHR ''/'' # y) = Some [x, y]"
    if "CHR ''/'' \<notin> set x" "CHR ''/'' \<notin> set y"
    using resolve_grandchild [OF sd that] by (simp add: B slash_path_def)
qed

lemma entry_calls_inside:
  assumes sd: "list_all valid_name (script_dir w)" and f: "valid_name f" and sc: "scanned w \<noteq> None"
    and j: "list_all (call_inside w) j"
  shows "list_all (call_inside w)
           (calls_of (organize_entry_traced (path_join [dirname w, ''files'']) f ((w, j), out)))"
proof -
  from f have fs: "CHR ''/'' \<notin> set f" by (simp add: valid_name_def)
  note r = resolve_literal [OF sd]
  show ?thesis
  proof (cases "extName f = []")
    case True
    with j f show ?thesis
      unfolding entry_calls_literal [OF sd f sc] by (simp add: r(1) r(2) [OF fs])
  next
    case False
    from False fs have ev: "valid_name (extName f)" and es: "CHR ''/'' \<notin> set (extName f)"
      by (simp_all add: extName_valid extName_no_slash)
    from False j f ev show ?thesis
      unfolding entry_calls_literal [OF sd f sc]
      by (simp add: r(2) [OF fs] r(2) [OF es] r(3) [OF es fs] split: sum.splits)
  qed
qed


lemma state_of_map_completion: "state_of (map_completion g c) = g (state_of c)"
  by (cases c) simp_all

lemma organize_entry_traced_world:
  "fst (fst (state_of (organize_entry_traced B f ((w, j), out)))) =
   fst (state_of (organize_entry B f (w, out)))"
proof -
  have "untraced (state_of (organize_entry_traced B f ((w, j), out))) =
        state_of (organize_entry B f (w, out))"
    using arg_cong [OF organize_entry_untraced [of B f w j out], of state_of]
    by (simp add: state_of_map_completion)
  then have "fst (untraced (state_of (organize_entry_traced B f ((w, j), out)))) =
        fst (state_of (organize_entry B f (w, out)))"
    by (rule arg_cong)
  then show ?thesis by (simp add: untraced_def)
qed

lemma forEach_traced_inside:
  assumes sd: "list_all valid_name (script_dir w0)"
  shows "list_all valid_name fs \<Longrightarrow> script_dir w = script_dir w0 \<Longrightarrow> scanned w \<noteq> None \<Longrightarrow>
         list_all (call_inside w0) j \<Longrightarrow>
         list_all (call_inside w0)
           (calls_of (forEach fs (organize_entry_traced (path_join [dirname w0, ''files''])) ((w, j), out)))"
proof (induction fs arbitrary: w j out)
  case Nil
  then show ?case by (simp add: calls_of_def)
next
  case (Cons f fs)
  let ?B = "path_join [dirname w0, ''files'']"
  let ?r = "organize_entry_traced ?B f ((w, j), out)"
  from Cons.prems have f: "valid_name f" and fs: "list_all valid_name fs" by simp_all
  have dn: "dirname w = dirname w0" using Cons.prems(2) by (simp add: dirname_def)
  have sdw: "list_all valid_name (script_dir w)" using sd Cons.prems(2) by simp
  have jw: "list_all (call_inside w) j"
    using Cons.prems(4) call_inside_cong [OF Cons.prems(2)] by (simp add: list_all_iff)
  from entry_calls_inside [OF sdw f Cons.prems(3) jw, of out]
  have calls: "list_all (call_inside w0) (calls_of ?r)"
    using call_inside_cong [OF Cons.prems(2)] by (simp add: dn list_all_iff)
  from organize_entry_keeps [OF Cons.prems(3), of ?B f out] organize_entry_traced_world [of ?B f w j out]
  have keeps: "script_dir (fst (fst (state_of ?r))) = script_dir w0"
    "scanned (fst (fst (state_of ?r))) \<noteq> None"
    using Cons.prems(2) by simp_all
  show ?case
  proof (cases ?r)
    case (Throw err x)
    with calls show ?thesis by (simp add: calls_of_def)
  next
    case (Normal x)
    obtain w' j' out' where x: "x = ((w', j'), out')" by (cases x) auto
    from Normal x keeps calls have "script_dir w' = script_dir w0" "scanned w' \<noteq> None"
      "list_all (call_inside w0) j'"
      by (simp_all add: calls_of_def)
    from Cons.IH [OF fs this, of out'] Normal x show ?thesis by simp
  qed
qed

lemma forEach_traced_prefix:
  "\<exists>rest. calls_of (forEach fs (organize_entry_traced B) ((w, j), out)) = j @ rest"
proof (induction fs arbitrary: w j out)
  case Nil
  show ?case by (simp add: calls_of_def)
next
  case (Cons f fs)
  from organize_entry_traced_calls [of B f w j out] obtain r1 where
    r1: "calls_of (organize_entry_traced B f ((w, j), out)) = j @ r1" by blast
  show ?case
  proof (cases "organize_entry_traced B f ((w, j), out)")
    case (Throw err x)
    with r1 show ?thesis by (auto simp: calls_of_def)
  next
    case (Normal x)
    obtain w' j' out' where x: "x = ((w', j'), out')" by (cases x) auto
    from Cons.IH [of w' j' out'] obtain r2 where
      "calls_of (forEach fs (organize_entry_traced B) ((w', j'), out')) = j' @ r2" by blast
    moreover from Normal x r1 have "j' = j @ r1" by (simp add: calls_of_def)
    ultimately show ?thesis using Normal x by simp
  qed
qed

lemma readdirSync_names:
  assumes wf: "wf_world w" and rd: "readdirSync w (path_join [dirname w, ''files'']) = Inr files"
  shows "list_all valid_name files \<and> scanned w \<noteq> None"
proof -
  from wf have sd: "list_all valid_name (script_dir w)" by (simp add: wf_world_def)
  have res: "resolve w (path_join [dirname w, ''files'']) = Some []"
    using resolve_base [OF sd] by (simp add: base_path [OF sd])
  from rd res obtain t where t: "scanned w = Some t"
    by (cases "scanned w") (simp_all add: readdirSync_def)
  from rd res t have "files = map fst (entries t)"
    by (cases t) (simp_all add: readdirSync_def split: if_splits)
  with wf t show ?thesis by (simp add: wf_world_def)
qed

lemma main_traced_calls:
  assumes wf: "wf_world w"
  shows "(\<exists>rest. calls_of (main_traced (w, [])) = ReaddirSync (path_join [dirname w, ''files'']) # rest) \<and>
         list_all (call_inside w) (calls_of (main_traced (w, [])))"
proof -
  let ?B = "path_join [dirname w, ''files'']"
  from wf have sd: "list_all valid_name (script_dir w)" by (simp add: wf_world_def)
  have res: "resolve w ?B = Some []"
    using resolve_base [OF sd] by (simp add: base_path [OF sd])
  show ?thesis
  proof (cases "readdirSync w ?B")
    case (Inl err)
    then show ?thesis
      by (simp add: main_traced_def readdirSync_traced_def calls_of_def res)
  next
    case (Inr files)
    let ?run = "forEach files (organize_entry_traced ?B) ((w, [ReaddirSync ?B]), [])"
    from readdirSync_names [OF wf Inr] have vs: "list_all valid_name files" and sc: "scanned w \<noteq> None"
      by simp_all
    have j: "list_all (call_inside w) [ReaddirSync ?B]" by (simp add: res)
    from forEach_traced_inside [OF sd vs refl sc j, of "[]"]
    have inside: "list_all (call_inside w) (calls_of ?run)" .
    from forEach_traced_prefix [of files ?B w "[ReaddirSync ?B]" "[]"] obtain rest where
      pre: "calls_of ?run = ReaddirSync ?B # rest" by auto
    have "calls_of (main_traced (w, [])) = calls_of ?run"
      using Inr by (cases ?run) (auto simp: main_traced_def readdirSync_traced_def calls_of_def)
    with inside pre show ?thesis by simp
  qed
qed


text \<open>
  Claim C10. Every path the script hands to the file system lies inside the scanned
  directory \<open>B = path.join(__dirname, 'files')\<close>. The journal of the calls says which
  paths these are. Handling an entry name \<open>f\<close> of an existing scanned directory, the
  callback makes exactly these calls: with an extension \<open>e\<close> it tests \<open>B/e\<close>, creates
  \<open>B/e\<close> (one level below \<open>B\<close>) when the test fails, and moves \<open>B/f\<close> to \<open>B/e/f\<close>;
  without an extension it tests \<open>B\<close> itself and moves \<open>B/f\<close> onto \<open>B/f\<close>. A whole run
  starts with \<^verbatim>\<open>readdirSync\<close> on \<open>B\<close>, and every call of its journal stays inside \<open>B\<close>:
  each path resolves to valid components below \<open>B\<close>, so no \<^verbatim>\<open>..\<close> leads out. The script
  over the journalled calls does to the file system and the console what the script
  does.
\<close>

theorem script_calls_inside:
  assumes "wf_world w" and "valid_name f"
  shows "(scanned w \<noteq> None \<longrightarrow>
            map_completion untraced
              (organize_entry_traced (path_join [dirname w, ''files'']) f ((w, []), out)) =
              organize_entry (path_join [dirname w, ''files'']) f (w, out) \<and>
            calls_of (organize_entry_traced (path_join [dirname w, ''files'']) f ((w, []), out)) =
              (if extName f = [] then
                 [ExistsSync (path_join [dirname w, ''files'']),
                  RenameSync (path_join [dirname w, ''files''] @ ''/'' @ f)
                             (path_join [dirname w, ''files''] @ ''/'' @ f)]
               else if existsSync w (path_join [dirname w, ''files''] @ ''/'' @ extName f) then
                 [ExistsSync (path_join [dirname w, ''files''] @ ''/'' @ extName f),
                  RenameSync (path_join [dirname w, ''files''] @ ''/'' @ f)
                             (path_join [dirname w, ''files''] @ ''/'' @ extName f @ ''/'' @ f)]
               else
                 (case mkdirSync w (path_join [dirname w, ''files''] @ ''/'' @ extName f) of
                    Inl err \<Rightarrow>
                      [ExistsSync (path_join [dirname w, ''files''] @ ''/'' @ extName f),
                       MkdirSync (path_join [dirname w, ''files''] @ ''/'' @ extName f)]
                  | Inr w1 \<Rightarrow>
                      [ExistsSync (path_join [dirname w, ''files''] @ ''/'' @ extName f),
                       MkdirSync (path_join [dirname w, ''files''] @ ''/'' @ extName f),
                       RenameSync (path_join [dirname w, ''files''] @ ''/'' @ f)
                                  (path_join [dirname w, ''files''] @ ''/'' @ extName f @ ''/'' @ f)])) \<and>
            list_all (call_inside w)
              (calls_of (organize_entry_traced (path_join [dirname w, ''files'']) f ((w, []), out)))) \<and>
         (extName f \<noteq> [] \<longrightarrow> valid_name (extName f)) \<and>
         map_completion untraced (main_traced (w, [])) = main w \<and>
         (\<exists>rest. calls_of (main_traced (w, [])) =
            ReaddirSync (path_join [dirname w, ''files'']) # rest) \<and>
         list_all (call_inside w) (calls_of (main_traced (w, [])))"
proof -
  from assms(1) have sd: "list_all valid_name (script_dir w)" by (simp add: wf_world_def)
  from assms(2) have fs: "CHR ''/'' \<notin> set f" by (simp add: valid_name_def)
  have "extName f \<noteq> [] \<longrightarrow> valid_name (extName f)"
    using fs by (simp add: extName_valid)
  moreover have "scanned w \<noteq> None \<longrightarrow>
      list_all (call_inside w)
        (calls_of (organize_entry_traced (path_join [dirname w, ''files'']) f ((w, []), out)))"
    using entry_calls_inside [OF sd assms(2), of "[]" out] by simp
  moreover note organize_entry_untraced [of "path_join [dirname w, ''files'']" f w "[]" out]
    main_untraced [of w "[]"] main_traced_calls [OF assms(1)]
  moreover have "scanned w \<noteq> None \<longrightarrow>
      calls_of (organize_entry_traced (path_join [dirname w, ''files'']) f ((w, []), out)) =
        [] @ (if extName f = [] then
            [ExistsSync (path_join [dirname w, ''files'']),
             RenameSync (path_join [dirname w, ''files''] @ ''/'' @ f)
                        (path_join [dirname w, ''files''] @ ''/'' @ f)]
          else if existsSync w (path_join [dirname w, ''files''] @ ''/'' @ extName f) then
            [ExistsSync (path_join [dirname w, ''files''] @ ''/'' @ extName f),
             RenameSync (path_join [dirname w, ''files''] @ ''/'' @ f)
                        (path_join [dirname w, ''files''] @ ''/'' @ extName f @ ''/'' @ f)]
          else
            (case mkdirSync w (path_join [dirname w, ''files''] @ ''/'' @ extName f) of
               Inl err \<Rightarrow>
                 [ExistsSync (path_join [dirname w, ''files''] @ ''/'' @ extName f),
                  MkdirSync (path_join [dirname w, ''files''] @ ''/'' @ extName f)]
             | Inr w1 \<Rightarrow>
                 [ExistsSync (path_join [dirname w, ''files''] @ ''/'' @ extName f),
                  MkdirSync (path_join [dirname w, ''files''] @ ''/'' @ extName f),
                  RenameSync (path_join [dirname w, ''files''] @ ''/'' @ f)
                             (path_join [dirname w, ''files''] @ ''/'' @ extName f @ ''/'' @ f)]))"
    using entry_calls_literal [OF sd assms(2), of "[]" out] by blast
  ultimately show ?thesis unfolding append_Nil by blast
qed

theorem script_calls_inside_witness:
  "wf_world (in_files True [(''a.txt'', File ''1''), (''notes'', File ''2'')]) \<and>
   valid_name ''a.txt'' \<and>
   calls_of (main_traced (in_files True [(''a.txt'', File ''1''), (''notes'', File ''2'')], [])) =
     [ReaddirSync ''/exercises/clear_the_clutter/files'',
      ExistsSync ''/exercises/clear_the_clutter/files/txt'',
      MkdirSync ''/exercises/clear_the_clutter/files/txt'',
      RenameSync ''/exercises/clear_the_clutter/files/a.txt''
                 ''/exercises/clear_the_clutter/files/txt/a.txt'',
      ExistsSync ''/exercises/clear_the_clutter/files'',
      RenameSync ''/exercises/clear_the_clutter/files/notes''
                 ''/exercises/clear_the_clutter/files/notes''] \<and>
   list_all (call_inside (in_files True [(''a.txt'', File ''1''), (''notes'', File ''2'')]))
     (calls_of (main_traced (in_files True [(''a.txt'', File ''1''), (''notes'', File ''2'')], []))) \<and>
   map_completion untraced
     (main_traced (in_files True [(''a.txt'', File ''1''), (''notes'', File ''2'')], [])) =
   main (in_files True [(''a.txt'', File ''1''), (''notes'', File ''2'')])"
proof -
  let ?w = "in_files True [(''a.txt'', File ''1''), (''notes'', File ''2'')]"
  have wf: "wf_world ?w" by (simp add: wf_world_def in_files_def valid_name_def)
  have f: "valid_name ''a.txt''" by (simp add: valid_name_def)
  have calls: "calls_of (main_traced (?w, [])) =
     [ReaddirSync ''/exercises/clear_the_clutter/files'',
      ExistsSync ''/exercises/clear_the_clutter/files/txt'',
      MkdirSync ''/exercises/clear_the_clutter/files/txt'',
      RenameSync ''/exercises/clear_the_clutter/files/a.txt''
                 ''/exercises/clear_the_clutter/files/txt/a.txt'',
      ExistsSync ''/exercises/clear_the_clutter/files'',
      RenameSync ''/exercises/clear_the_clutter/files/notes''
                 ''/exercises/clear_the_clutter/files/notes'']"
    by code_simp
  note th = script_calls_inside [OF wf f, of "[]"]
  from th have 1: "list_all (call_inside ?w) (calls_of (main_traced (?w, [])))" by blast
  from th have 2: "map_completion untraced (main_traced (?w, [])) = main ?w" by blast
  from wf f calls 1 2 show ?thesis by blast
qed

end
